theory Spec2Isabelle
  imports Main
begin

section \<open>Expiry-date extraction (app.py): strings and library functions\<close>

text \<open>
  A Python \<open>str\<close> is modelled as a \<open>string\<close>, one \<open>char\<close> per code point, for
  texts whose code points are below 256. On such texts the classes of the \<open>re\<close> module
  have the members written out below: \<open>\d\<close> is the ten ASCII digits, \<open>\s\<close> is the
  Unicode white space below 256, and IGNORECASE identifies the ASCII letters only.
  The functions of the Python library (\<open>str.split\<close>, \<open>str.zfill\<close>, \<open>str.splitlines\<close>,
  \<open>int\<close>, \<open>re.findall\<close>, \<open>re.search\<close>, \<open>datetime\<close>, \<open>urllib.parse.quote\<close>) are
  modelled after their documented behaviour; the functions of app.py are translated
  line by line on top of them.
\<close>

datatype error = ValueError | OverflowError

definition is_digit :: "char \<Rightarrow> bool" where
  \<comment> \<open>\<open>\d\<close> and \<open>[0-9]\<close>\<close>
  "is_digit c = (c \<in> set ''0123456789'')"

definition digit_val :: "char \<Rightarrow> nat" where
  \<comment> \<open>the value of a digit: \<open>ord(c) - ord('0')\<close>\<close>
  "digit_val c = of_char c - of_char CHR ''0''"

definition digit_char :: "int \<Rightarrow> char" where
  "digit_char n = ''0123456789'' ! nat (n mod 10)"

definition is_space :: "char \<Rightarrow> bool" where
  \<comment> \<open>\<open>\s\<close> of a str pattern, and \<open>str.isspace\<close>: tab, LF, VT, FF, CR, FS, GS, RS, US,
      space, NEL, NBSP\<close>
  "is_space c = (c \<in> {CHR 0x09, CHR 0x0A, CHR 0x0B, CHR 0x0C, CHR 0x0D,
                       CHR 0x1C, CHR 0x1D, CHR 0x1E, CHR 0x1F, CHR 0x20, CHR 0x85, CHR 0xA0})"

definition is_linebreak :: "char \<Rightarrow> bool" where
  \<comment> \<open>the line boundaries of \<open>str.splitlines\<close> (CR LF counts as one, see below)\<close>
  "is_linebreak c = (c \<in> {CHR 0x0A, CHR 0x0B, CHR 0x0C, CHR 0x0D,
                           CHR 0x1C, CHR 0x1D, CHR 0x1E, CHR 0x85})"

fun splitlines :: "string \<Rightarrow> string list" where
  \<comment> \<open>\<open>str.splitlines()\<close>: no line breaks kept, no empty last line\<close>
  "splitlines [] = []"
| "splitlines (c # cs) =
     (if c = CHR 0x0D then
        (case cs of
           [] \<Rightarrow> [[]]
         | d # ds \<Rightarrow> if d = CHR 0x0A then [] # splitlines ds else [] # splitlines cs)
      else if is_linebreak c then [] # splitlines cs
      else (case splitlines cs of [] \<Rightarrow> [[c]] | l # ls \<Rightarrow> (c # l) # ls))"

fun split_slash :: "string \<Rightarrow> string list" where
  \<comment> \<open>\<open>s.split('/')\<close>: never empty, one more part than there are slashes\<close>
  "split_slash [] = [[]]"
| "split_slash (c # cs) =
     (if c = CHR ''/'' then [] # split_slash cs
      else (case split_slash cs of [] \<Rightarrow> [[c]] | p # ps \<Rightarrow> (c # p) # ps))"

definition zfill :: "nat \<Rightarrow> string \<Rightarrow> string" where
  \<comment> \<open>\<open>s.zfill(width)\<close>: zeros go after a leading sign\<close>
  "zfill width s =
     (if width \<le> length s then s
      else (case s of
              [] \<Rightarrow> replicate width CHR ''0''
            | c # cs \<Rightarrow>
                if c = CHR ''+'' \<or> c = CHR ''-''
                then c # replicate (width - length s) CHR ''0'' @ cs
                else replicate (width - length s) CHR ''0'' @ s))"

function str_digits :: "int \<Rightarrow> string" where
  \<comment> \<open>the decimal digits of an int that is not negative\<close>
  "str_digits n = (if n < 10 then [digit_char n] else str_digits (n div 10) @ [digit_char n])"
  by pat_completeness auto
termination
  by (relation "measure nat") auto

declare str_digits.simps [simp del]

definition py_str :: "int \<Rightarrow> string" where
  \<comment> \<open>\<open>str(n)\<close> of an int\<close>
  "py_str n = (if n < 0 then CHR ''-'' # str_digits (- n) else str_digits n)"

subsection \<open>The clock\<close>

text \<open>
  app.py reads \<open>datetime.now().year\<close> where it needs the century (lines 41 and 54).
  The model has no ambient state, so the year the clock shows at the call is the
  argument \<open>now_year\<close> of every function that reads it, a Python int (1 to 9999
  are the years of \<open>datetime\<close>).
\<close>

definition current_century :: "int \<Rightarrow> string" where
  \<comment> \<open>\<open>str(datetime.now().year)[:2]\<close>\<close>
  "current_century now_year = take 2 (py_str now_year)"

definition resolve_century :: "string \<Rightarrow> string \<Rightarrow> string" where
  \<comment> \<open>\<open>if len(year) == 2: year = current_century + year\<close>, lines 40-41, 64-65, 69-70
      and their copies in the other tiers\<close>
  "resolve_century century year = (if length year = 2 then century @ year else year)"

subsection \<open>\<open>normalize_expiry_date\<close> (lines 30-45)\<close>

definition truthy :: "string option \<Rightarrow> bool" where
  \<comment> \<open>\<open>if x:\<close> for x a str or None\<close>
  "truthy x = (case x of None \<Rightarrow> False | Some s \<Rightarrow> s \<noteq> [])"

definition normalize_expiry_date :: "int \<Rightarrow> string \<Rightarrow> string option" where
  "normalize_expiry_date now_year date_str =
     (case split_slash date_str of
        [mm, dd, yyyy] \<Rightarrow>
          (let yyyy' = resolve_century (current_century now_year) yyyy
           in if truthy (Some dd)
              then Some (zfill 2 mm @ ''/'' @ zfill 2 dd @ ''/'' @ yyyy')
              else Some (zfill 2 mm @ ''/'' @ yyyy'))
      | [mm, yyyy] \<Rightarrow>
          (let yyyy' = resolve_century (current_century now_year) yyyy
           in Some (zfill 2 mm @ ''/'' @ yyyy'))
      | _ \<Rightarrow> None)"

subsection \<open>The date patterns (lines 49-52) and \<open>re.findall\<close>\<close>

text \<open>
  \<open>date_patterns[0]\<close> is \<open>(0[1-9]|1[0-2])[\/\-](0[1-9]|[12][0-9]|3[01])[\/\-](\d{2,4})\<close>
  and \<open>date_patterns[1]\<close> is \<open>(0[1-9]|1[0-2])[\/\-](\d{2,4})\<close>. Each piece returns what it
  captured and the rest of the text. The alternatives of the month and of the day
  exclude each other, and the greedy \<open>\d{2,4}\<close> is the last piece, so a match at a
  position, when there is one, is unique and no backtracking is needed.
\<close>

datatype pattern = Full | Partial

definition date_patterns :: "pattern list" where
  "date_patterns = [Full, Partial]"

definition rx_month :: "string \<Rightarrow> (string \<times> string) option" where
  \<comment> \<open>\<open>(0[1-9]|1[0-2])\<close>\<close>
  "rx_month s =
     (case s of
        a # b # r \<Rightarrow>
          if a = CHR ''0'' \<and> b \<in> set ''123456789'' then Some ([a, b], r)
          else if a = CHR ''1'' \<and> b \<in> set ''012'' then Some ([a, b], r)
          else None
      | _ \<Rightarrow> None)"

definition rx_day :: "string \<Rightarrow> (string \<times> string) option" where
  \<comment> \<open>\<open>(0[1-9]|[12][0-9]|3[01])\<close>\<close>
  "rx_day s =
     (case s of
        a # b # r \<Rightarrow>
          if a = CHR ''0'' \<and> b \<in> set ''123456789'' then Some ([a, b], r)
          else if a \<in> set ''12'' \<and> b \<in> set ''0123456789'' then Some ([a, b], r)
          else if a = CHR ''3'' \<and> b \<in> set ''01'' then Some ([a, b], r)
          else None
      | _ \<Rightarrow> None)"

definition rx_sep :: "string \<Rightarrow> string option" where
  \<comment> \<open>\<open>[\/\-]\<close>\<close>
  "rx_sep s = (case s of c # r \<Rightarrow> if c = CHR ''/'' \<or> c = CHR ''-'' then Some r else None
               | [] \<Rightarrow> None)"

definition rx_year :: "string \<Rightarrow> (string \<times> string) option" where
  \<comment> \<open>\<open>(\d{2,4})\<close>, greedy: as many digits as there are, up to four\<close>
  "rx_year s =
     (let ds = takeWhile is_digit (take 4 s)
      in if 2 \<le> length ds then Some (ds, drop (length ds) s) else None)"

fun re_match :: "pattern \<Rightarrow> string \<Rightarrow> (string list \<times> string) option" where
  \<comment> \<open>a match of the pattern at the start of the text: the groups, and the text after it\<close>
  "re_match Full s =
     (case rx_month s of None \<Rightarrow> None | Some (m, r1) \<Rightarrow>
      (case rx_sep r1 of None \<Rightarrow> None | Some r2 \<Rightarrow>
       (case rx_day r2 of None \<Rightarrow> None | Some (d, r3) \<Rightarrow>
        (case rx_sep r3 of None \<Rightarrow> None | Some r4 \<Rightarrow>
         (case rx_year r4 of None \<Rightarrow> None | Some (y, r5) \<Rightarrow> Some ([m, d, y], r5))))))"
| "re_match Partial s =
     (case rx_month s of None \<Rightarrow> None | Some (m, r1) \<Rightarrow>
      (case rx_sep r1 of None \<Rightarrow> None | Some r2 \<Rightarrow>
       (case rx_year r2 of None \<Rightarrow> None | Some (y, r3) \<Rightarrow> Some ([m, y], r3))))"

text \<open>
  \<open>re.finditer\<close> scans from the left: where the pattern matches, the match is taken
  and the scan goes on at its end; elsewhere it moves on by one character. A match is
  kept as (start, end, groups). A match that consumed nothing cannot occur with these
  patterns; the scan would step over one character then, as \<open>re\<close> does.
\<close>

function finditer :: "pattern \<Rightarrow> nat \<Rightarrow> string \<Rightarrow> (nat \<times> nat \<times> string list) list" where
  "finditer p pos [] = []"
| "finditer p pos (c # cs) =
     (case re_match p (c # cs) of
        None \<Rightarrow> finditer p (pos + 1) cs
      | Some (g, rest) \<Rightarrow>
          if length rest < length (c # cs)
          then (pos, pos + (length (c # cs) - length rest), g)
                 # finditer p (pos + (length (c # cs) - length rest)) rest
          else (pos, pos, g) # finditer p (pos + 1) cs)"
  by pat_completeness auto
termination
  by (relation "measure (\<lambda>(p, pos, s). length s)") auto

definition re_findall :: "pattern \<Rightarrow> string \<Rightarrow> string list list" where
  \<comment> \<open>\<open>re.findall(pattern, s)\<close>: the tuple of groups of every match\<close>
  "re_findall p s = map (\<lambda>(i, j, g). g) (finditer p 0 s)"

subsection \<open>The keywords (line 48) and \<open>re.search\<close>\<close>

definition lower :: "char \<Rightarrow> char" where
  "lower c = (case map_of (zip ''ABCDEFGHIJKLMNOPQRSTUVWXYZ'' ''abcdefghijklmnopqrstuvwxyz'') c of
                None \<Rightarrow> c | Some l \<Rightarrow> l)"

fun lit_ci :: "string \<Rightarrow> string \<Rightarrow> string option" where
  \<comment> \<open>a literal of the pattern (lower case) under IGNORECASE: the text after it\<close>
  "lit_ci [] s = Some s"
| "lit_ci (p # ps) [] = None"
| "lit_ci (p # ps) (c # cs) = (if lower c = p then lit_ci ps cs else None)"

definition lit_at :: "string \<Rightarrow> string \<Rightarrow> bool" where
  "lit_at a s = (case lit_ci a s of None \<Rightarrow> False | Some r \<Rightarrow> True)"

definition lit_ws_lit :: "string \<Rightarrow> string \<Rightarrow> string \<Rightarrow> bool" where
  \<comment> \<open>\<open>a\s*b\<close>: \<open>b\<close> never starts with white space, so the greedy \<open>\s*\<close> takes all of it\<close>
  "lit_ws_lit a b s =
     (case lit_ci a s of None \<Rightarrow> False | Some r \<Rightarrow> lit_at b (dropWhile is_space r))"

definition keyword_at :: "string \<Rightarrow> bool" where
  \<comment> \<open>one of the alternatives of \<open>expiry_keywords\<close> matches at the start of the text;
      the first three lines are \<open>exp(?:iry|iration)?\s*date\<close>\<close>
  "keyword_at s =
     (lit_ws_lit ''expiry'' ''date'' s \<or> lit_ws_lit ''expiration'' ''date'' s
      \<or> lit_ws_lit ''exp'' ''date'' s
      \<or> lit_ws_lit ''exp'' ''date'' s
      \<or> lit_at ''exp.'' s
      \<or> lit_at ''expires'' s
      \<or> lit_ws_lit ''valid'' ''thru'' s
      \<or> lit_ws_lit ''valid'' ''until'' s
      \<or> lit_at ''exp'' s
      \<or> lit_ws_lit ''good'' ''thru'' s
      \<or> lit_ws_lit ''good'' ''until'' s
      \<or> lit_at ''validity'' s
      \<or> lit_at ''exp'' s)"

fun keyword_search :: "string \<Rightarrow> bool" where
  \<comment> \<open>\<open>re.search(expiry_keywords, line, re.IGNORECASE)\<close> is not None\<close>
  "keyword_search [] = keyword_at []"
| "keyword_search (c # cs) = (keyword_at (c # cs) \<or> keyword_search cs)"

subsection \<open>Sets of strings\<close>

text \<open>
  A Python set of strings is modelled as the list of its elements in the order they
  were added. The order in which CPython iterates over a set depends on the hashes of
  the elements, which change from one process to the next; it is the argument
  \<open>iter\<close> of the functions that iterate, which maps the elements as added to the
  elements as iterated.
\<close>

definition set_add :: "string \<Rightarrow> string list \<Rightarrow> string list" where
  "set_add x s = (if x \<in> set s then s else s @ [x])"

definition iteration_order :: "(string list \<Rightarrow> string list) \<Rightarrow> bool" where
  \<comment> \<open>what every iteration does: each element once\<close>
  "iteration_order iter = (\<forall>xs. distinct xs \<longrightarrow> distinct (iter xs) \<and> set (iter xs) = set xs)"

subsection \<open>\<open>extract_expiry_dates\<close>: the three tiers (lines 53-106)\<close>

definition add_match :: "string \<Rightarrow> string list \<Rightarrow> string list \<Rightarrow> string list" where
  \<comment> \<open>lines 62-71: the body of \<open>for match in found\<close>\<close>
  "add_match century match candidates =
     (case match of
        [m0, m1, m2] \<Rightarrow>
          set_add (m0 @ ''/'' @ m1 @ ''/'' @ resolve_century century m2) candidates
      | [m0, m1] \<Rightarrow> set_add (m0 @ ''/'' @ resolve_century century m1) candidates
      | _ \<Rightarrow> candidates)"

definition scan :: "string \<Rightarrow> string \<Rightarrow> string list \<Rightarrow> string list" where
  \<comment> \<open>lines 59-71: \<open>for pattern in date_patterns: for match in re.findall(pattern, line)\<close>\<close>
  "scan century line candidates =
     fold (\<lambda>pattern c. fold (add_match century) (re_findall pattern line) c)
       date_patterns candidates"

definition same_line :: "string \<Rightarrow> string list \<Rightarrow> string list \<Rightarrow> string list" where
  \<comment> \<open>lines 57-71\<close>
  "same_line century lines candidates =
     fold (\<lambda>line c. if keyword_search line then scan century line c else c)
       lines candidates"

definition next_line :: "string \<Rightarrow> string list \<Rightarrow> string list \<Rightarrow> string list" where
  \<comment> \<open>lines 74-91\<close>
  "next_line century lines candidates =
     fold (\<lambda>i c. if keyword_search (lines ! i)
                  then (if i + 1 < length lines then scan century (lines ! (i + 1)) c else c)
                  else c)
       [0..<length lines] candidates"

definition global_scan :: "string \<Rightarrow> string \<Rightarrow> string list \<Rightarrow> string list" where
  \<comment> \<open>lines 94-106\<close>
  "global_scan century text candidates = scan century text candidates"

definition collect_candidates :: "int \<Rightarrow> string \<Rightarrow> string list" where
  \<comment> \<open>lines 53-106: \<open>candidates\<close> as it is when line 107 is reached\<close>
  "collect_candidates now_year text =
     (let candidates = [];
          current_century = current_century now_year;
          lines = splitlines text;
          candidates = same_line current_century lines candidates;
          candidates = (if candidates = [] then next_line current_century lines candidates
                        else candidates);
          candidates = (if candidates = [] then global_scan current_century text candidates
                        else candidates)
      in candidates)"

subsection \<open>\<open>extract_expiry_dates\<close>: normalising and ranking (lines 107-127)\<close>

definition normalize_all :: "int \<Rightarrow> string list \<Rightarrow> string list" where
  \<comment> \<open>lines 108-112, over the candidates as iterated\<close>
  "normalize_all now_year cs =
     fold (\<lambda>c normalized.
             (let norm = normalize_expiry_date now_year c
              in if truthy norm then (case norm of None \<Rightarrow> normalized
                                      | Some n \<Rightarrow> set_add n normalized)
                 else normalized))
       cs []"

fun int_digits :: "nat \<Rightarrow> string \<Rightarrow> nat option" where
  \<comment> \<open>the digits of an int literal; single underscores may stand between digits\<close>
  "int_digits acc [] = Some acc"
| "int_digits acc (c # cs) =
     (if is_digit c then int_digits (acc * 10 + digit_val c) cs
      else if c = CHR ''_'' then
        (case cs of [] \<Rightarrow> None
         | d # ds \<Rightarrow> if is_digit d then int_digits acc cs else None)
      else None)"

definition unsigned_int :: "string \<Rightarrow> nat option" where
  "unsigned_int s = (case s of [] \<Rightarrow> None
                     | c # cs \<Rightarrow> if is_digit c then int_digits 0 s else None)"

definition py_int :: "string \<Rightarrow> error + int" where
  \<comment> \<open>\<open>int(s)\<close>: white space around, a sign, decimal digits; ValueError otherwise\<close>
  "py_int s =
     (let t = rev (dropWhile is_space (rev (dropWhile is_space s)))
      in case t of
           [] \<Rightarrow> Inl ValueError
         | c # cs \<Rightarrow>
             if c = CHR ''-'' then
               (case unsigned_int cs of None \<Rightarrow> Inl ValueError | Some n \<Rightarrow> Inr (- int n))
             else if c = CHR ''+'' then
               (case unsigned_int cs of None \<Rightarrow> Inl ValueError | Some n \<Rightarrow> Inr (int n))
             else
               (case unsigned_int t of None \<Rightarrow> Inl ValueError | Some n \<Rightarrow> Inr (int n)))"

definition date_key :: "string \<Rightarrow> error + int" where
  \<comment> \<open>lines 115-122; unpacking anything but two parts in the else branch is a ValueError\<close>
  "date_key d =
     (case split_slash d of
        [mm, dd, yyyy] \<Rightarrow>
          (case py_int yyyy of Inl e \<Rightarrow> Inl e | Inr y \<Rightarrow>
           (case py_int mm of Inl e \<Rightarrow> Inl e | Inr m \<Rightarrow>
            (case py_int dd of Inl e \<Rightarrow> Inl e | Inr dn \<Rightarrow> Inr (y * 10000 + m * 100 + dn))))
      | [mm, yyyy] \<Rightarrow>
          (case py_int yyyy of Inl e \<Rightarrow> Inl e | Inr y \<Rightarrow>
           (case py_int mm of Inl e \<Rightarrow> Inl e | Inr m \<Rightarrow>
            (case py_int ''01'' of Inl e \<Rightarrow> Inl e | Inr dn \<Rightarrow> Inr (y * 10000 + m * 100 + dn))))
      | _ \<Rightarrow> Inl ValueError)"

fun with_keys :: "string list \<Rightarrow> error + (int \<times> string) list" where
  \<comment> \<open>\<open>sorted\<close> computes the key of every element before it compares any\<close>
  "with_keys [] = Inr []"
| "with_keys (d # ds) =
     (case date_key d of Inl e \<Rightarrow> Inl e | Inr k \<Rightarrow>
      (case with_keys ds of Inl e \<Rightarrow> Inl e | Inr kds \<Rightarrow> Inr ((k, d) # kds)))"

definition sorted_reverse :: "(int \<times> string) list \<Rightarrow> string list" where
  \<comment> \<open>\<open>sorted(..., reverse=True)\<close>: descending and stable, elements with equal keys
      stay in the order they came in\<close>
  "sorted_reverse kds = map snd (rev (sort_key fst (rev kds)))"

definition is_full :: "string \<Rightarrow> bool" where
  \<comment> \<open>line 125: \<open>len(d.split('/')) == 3\<close>\<close>
  "is_full d = (length (split_slash d) = 3)"

definition rank :: "string list \<Rightarrow> error + string list" where
  \<comment> \<open>lines 113-127, over the elements of \<open>normalized\<close> as iterated\<close>
  "rank normalized =
     (if normalized = [] then Inr []
      else (case with_keys normalized of
              Inl e \<Rightarrow> Inl e
            | Inr kds \<Rightarrow>
                (let sorted_dates = sorted_reverse kds
                 in case filter is_full sorted_dates of
                      d # _ \<Rightarrow> Inr [d]
                    | [] \<Rightarrow> (case sorted_dates of d # _ \<Rightarrow> Inr [d] | [] \<Rightarrow> Inr []))))"

definition extract_expiry_dates ::
  "(string list \<Rightarrow> string list) \<Rightarrow> int \<Rightarrow> string \<Rightarrow> error + string list" where
  "extract_expiry_dates iter now_year text =
     (let candidates = collect_candidates now_year text;
          normalized = normalize_all now_year (iter candidates)
      in rank (iter normalized))"

section \<open>The reminder link (lines 129-145)\<close>

subsection \<open>\<open>datetime\<close>: the proleptic Gregorian calendar\<close>

text \<open>
  Dates follow the reference implementation of the \<open>datetime\<close> module: day 1 is
  January 1 of year 1, a date and its ordinal are converted by \<open>_ymd2ord\<close> and
  \<open>_ord2ymd\<close>, and the years run from 1 to 9999. A \<open>datetime\<close> without time zone
  is a date and the seconds since midnight.
\<close>

record datetime =
  year :: int
  month :: int
  day :: int
  seconds :: int

definition DAYS_IN_MONTH :: "int list" where
  "DAYS_IN_MONTH = [-1, 31, 28, 31, 30, 31, 30, 31, 31, 30, 31, 30, 31]"

definition DAYS_BEFORE_MONTH :: "int list" where
  "DAYS_BEFORE_MONTH = [-1, 0, 31, 59, 90, 120, 151, 181, 212, 243, 273, 304, 334]"

definition MAXORDINAL :: int where
  "MAXORDINAL = 3652059"

definition is_leap :: "int \<Rightarrow> bool" where
  "is_leap y = (y mod 4 = 0 \<and> (y mod 100 \<noteq> 0 \<or> y mod 400 = 0))"

definition days_before_year :: "int \<Rightarrow> int" where
  "days_before_year y = (y - 1) * 365 + (y - 1) div 4 - (y - 1) div 100 + (y - 1) div 400"

definition days_in_month :: "int \<Rightarrow> int \<Rightarrow> int" where
  "days_in_month y m = (if m = 2 \<and> is_leap y then 29 else DAYS_IN_MONTH ! nat m)"

definition days_before_month :: "int \<Rightarrow> int \<Rightarrow> int" where
  "days_before_month y m = DAYS_BEFORE_MONTH ! nat m + (if 2 < m \<and> is_leap y then 1 else 0)"

definition ymd2ord :: "int \<Rightarrow> int \<Rightarrow> int \<Rightarrow> int" where
  "ymd2ord y m d = days_before_year y + days_before_month y m + d"

definition month_day :: "bool \<Rightarrow> int \<Rightarrow> int \<times> int" where
  \<comment> \<open>the end of \<open>_ord2ymd\<close>: month and day of day \<open>n\<close> of a year, counted from 0; the
      month is estimated, and corrected when the estimate is too large\<close>
  "month_day leapyear n =
     (let m = (n + 50) div 32;
          preceding = DAYS_BEFORE_MONTH ! nat m + (if 2 < m \<and> leapyear then 1 else 0)
      in if n < preceding
         then (let m' = m - 1;
                   preceding' = preceding
                     - (DAYS_IN_MONTH ! nat m' + (if m' = 2 \<and> leapyear then 1 else 0))
               in (m', n - preceding' + 1))
         else (m, n - preceding + 1))"

definition ord2ymd :: "int \<Rightarrow> int \<times> int \<times> int" where
  "ord2ymd ordinal =
     (let n = ordinal - 1;
          n400 = n div 146097; n = n mod 146097;
          n100 = n div 36524; n = n mod 36524;
          n4 = n div 1461; n = n mod 1461;
          n1 = n div 365; n = n mod 365;
          y = n400 * 400 + 1 + n100 * 100 + n4 * 4 + n1
      in if n1 = 4 \<or> n100 = 4 then (y - 1, 12, 31)
         else (case month_day (n1 = 3 \<and> (n100 = 3 \<or> n4 < 24)) n of (m, d) \<Rightarrow> (y, m, d)))"

definition valid_date :: "int \<Rightarrow> int \<Rightarrow> int \<Rightarrow> bool" where
  \<comment> \<open>what the constructor of \<open>datetime\<close> checks; it raises ValueError otherwise\<close>
  "valid_date y m d = (1 \<le> y \<and> y \<le> 9999 \<and> 1 \<le> m \<and> m \<le> 12 \<and> 1 \<le> d \<and> d \<le> days_in_month y m)"

definition add_timedelta :: "datetime \<Rightarrow> int \<Rightarrow> int \<Rightarrow> error + datetime" where
  \<comment> \<open>\<open>dt + timedelta(days=days, seconds=secs)\<close>; OverflowError outside years 1 to 9999\<close>
  "add_timedelta dt days secs =
     (let total = (ymd2ord (year dt) (month dt) (day dt) + days) * 86400 + seconds dt + secs;
          delta_days = total div 86400;
          delta_seconds = total mod 86400
      in if 0 < delta_days \<and> delta_days \<le> MAXORDINAL
         then (case ord2ymd delta_days of
                 (y, m, d) \<Rightarrow> Inr \<lparr>year = y, month = m, day = d, seconds = delta_seconds\<rparr>)
         else Inl OverflowError)"

subsection \<open>\<open>datetime.strptime\<close> and \<open>strftime\<close>\<close>

text \<open>
  \<open>strptime\<close> turns the format into a regular expression and matches it at the start
  of the string: \<open>%m\<close> is \<open>(1[0-2]|0[1-9]|[1-9])\<close>, \<open>%d\<close> is
  \<open>(3[0-1]|[1-2]\d|0[1-9]|[1-9]| [1-9])\<close>, \<open>%Y\<close> is \<open>(\d\d\d\d)\<close>. Each piece returns
  its possible matches in the order the regular expression tries them; the first
  match of the whole format is taken, and text left after it is a ValueError.
\<close>

definition two_chars :: "string \<Rightarrow> string \<Rightarrow> string \<Rightarrow> (string \<times> string) list" where
  "two_chars A B s = (case s of a # b # r \<Rightarrow> if a \<in> set A \<and> b \<in> set B then [([a, b], r)] else []
                      | _ \<Rightarrow> [])"

definition one_char :: "string \<Rightarrow> string \<Rightarrow> (string \<times> string) list" where
  "one_char A s = (case s of a # r \<Rightarrow> if a \<in> set A then [([a], r)] else [] | [] \<Rightarrow> [])"

definition strp_m :: "string \<Rightarrow> (string \<times> string) list" where
  "strp_m s = two_chars ''1'' ''012'' s @ two_chars ''0'' ''123456789'' s
              @ one_char ''123456789'' s"

definition strp_d :: "string \<Rightarrow> (string \<times> string) list" where
  "strp_d s = two_chars ''3'' ''01'' s @ two_chars ''12'' ''0123456789'' s
              @ two_chars ''0'' ''123456789'' s @ one_char ''123456789'' s
              @ two_chars '' '' ''123456789'' s"

definition strp_Y :: "string \<Rightarrow> (string \<times> string) list" where
  "strp_Y s = (case s of
                 a # b # c # d # r \<Rightarrow>
                   if is_digit a \<and> is_digit b \<and> is_digit c \<and> is_digit d
                   then [([a, b, c, d], r)] else []
               | _ \<Rightarrow> [])"

definition strp_slash :: "string \<Rightarrow> string list" where
  "strp_slash s = (case s of c # r \<Rightarrow> if c = CHR ''/'' then [r] else [] | [] \<Rightarrow> [])"

datatype format = MDY | MY

fun format_matches :: "format \<Rightarrow> string \<Rightarrow> ((string \<times> string \<times> string) \<times> string) list" where
  \<comment> \<open>MDY is \<open>"%m/%d/%Y"\<close>, MY is \<open>"%m/%Y"\<close> (the day is then 1)\<close>
  "format_matches MDY s =
     [((m, d, y), r5). (m, r1) \<leftarrow> strp_m s, r2 \<leftarrow> strp_slash r1, (d, r3) \<leftarrow> strp_d r2,
                       r4 \<leftarrow> strp_slash r3, (y, r5) \<leftarrow> strp_Y r4]"
| "format_matches MY s =
     [((m, ''1'', y), r3). (m, r1) \<leftarrow> strp_m s, r2 \<leftarrow> strp_slash r1, (y, r3) \<leftarrow> strp_Y r2]"

definition strptime :: "string \<Rightarrow> format \<Rightarrow> error + datetime" where
  "strptime s fmt =
     (case format_matches fmt s of
        [] \<Rightarrow> Inl ValueError
      | ((m, d, y), rest) # _ \<Rightarrow>
          if rest \<noteq> [] then Inl ValueError
          else (case py_int y of Inl e \<Rightarrow> Inl e | Inr yn \<Rightarrow>
                (case py_int m of Inl e \<Rightarrow> Inl e | Inr mn \<Rightarrow>
                 (case py_int d of Inl e \<Rightarrow> Inl e | Inr dn \<Rightarrow>
                    if valid_date yn mn dn
                    then Inr \<lparr>year = yn, month = mn, day = dn, seconds = 0\<rparr>
                    else Inl ValueError))))"

definition strftime_Ymd :: "datetime \<Rightarrow> string" where
  \<comment> \<open>\<open>dt.strftime("%Y%m%d")\<close> as CPython 3.11 prints it through the C library of
      Linux: \<open>%m\<close> and \<open>%d\<close> have two digits, \<open>%Y\<close> is the year as it is, without
      padding, so a year below 1000 has fewer than four digits (year 999 is \<open>999\<close>)\<close>
  "strftime_Ymd dt = py_str (year dt) @ zfill 2 (py_str (month dt))
                     @ zfill 2 (py_str (day dt))"

subsection \<open>\<open>urllib.parse.quote\<close>\<close>

definition utf8 :: "char \<Rightarrow> nat list" where
  \<comment> \<open>the UTF-8 bytes of a code point below 256\<close>
  "utf8 c = (let n = (of_char c :: nat)
             in if n < 128 then [n] else [192 + n div 64, 128 + n mod 64])"

definition percent :: "nat \<Rightarrow> string" where
  "percent b = [CHR ''%'', ''0123456789ABCDEF'' ! (b div 16), ''0123456789ABCDEF'' ! (b mod 16)]"

definition always_safe :: string where
  "always_safe = ''ABCDEFGHIJKLMNOPQRSTUVWXYZabcdefghijklmnopqrstuvwxyz0123456789_.-~''"

definition quote :: "string \<Rightarrow> string" where
  \<comment> \<open>\<open>quote(s)\<close> with the default \<open>safe='/'\<close>\<close>
  "quote s = concat (map (\<lambda>c. if c \<in> set (always_safe @ ''/'') then [c]
                              else concat (map percent (utf8 c))) s)"

subsection \<open>\<open>create_google_calendar_link\<close>\<close>

definition create_google_calendar_link :: "string \<Rightarrow> error + string option" where
  \<comment> \<open>\<open>Inr None\<close> is the \<open>return None\<close> of line 138; \<open>Inl\<close> is an exception that leaves
      the function, raised outside the \<open>try\<close> of lines 132-138\<close>
  "create_google_calendar_link expiry_date_str =
     (case (if length (split_slash expiry_date_str) = 3
            then strptime expiry_date_str MDY
            else strptime expiry_date_str MY) of
        Inl e \<Rightarrow> Inr None
      | Inr dt \<Rightarrow>
          (case add_timedelta dt (- 30) 0 of
             Inl e \<Rightarrow> Inl e
           | Inr reminder_date \<Rightarrow>
               (let start = strftime_Ymd reminder_date
                in case add_timedelta reminder_date 0 3600 of
                     Inl e \<Rightarrow> Inl e
                   | Inr reminder_end \<Rightarrow>
                       (let end = strftime_Ymd reminder_end;
                            title = quote ''Document Expiry Reminder'';
                            details = quote (''Your document expires on '' @ expiry_date_str
                                             @ ''. Renew soon!'');
                            link = ''https://calendar.google.com/calendar/render?action=TEMPLATE&text=''
                                   @ title @ ''&dates='' @ start @ ''/'' @ end
                                   @ ''&details='' @ details
                        in Inr (Some link)))))"

section \<open>Notions of the specification\<close>

text \<open>
  A normalized date, in the words of the specification: \<open>MM/DD/YYYY\<close> or \<open>MM/YYYY\<close>,
  the month and the day of two digits, the year of four.
\<close>

definition digits :: "nat \<Rightarrow> string \<Rightarrow> bool" where
  "digits n s = (length s = n \<and> list_all is_digit s)"

definition normalized_date :: "string \<Rightarrow> bool" where
  "normalized_date d =
     (case split_slash d of
        [mm, dd, yyyy] \<Rightarrow> digits 2 mm \<and> digits 2 dd \<and> digits 4 yyyy
      | [mm, yyyy] \<Rightarrow> digits 2 mm \<and> digits 4 yyyy
      | _ \<Rightarrow> False)"

fun join_slash :: "string list \<Rightarrow> string" where
  "join_slash [] = []"
| "join_slash [p] = p"
| "join_slash (p # q # ps) = p @ ''/'' @ join_slash (q # ps)"

text \<open>
  The date pattern matcher, in the words of the specification. A match is kept with
  its span, start and end. \<open>pattern_text p g t\<close> says that the text \<open>t\<close> has the shape
  of the pattern \<open>p\<close> with the groups \<open>g\<close>: a month 01 to 12, for the full pattern a
  day 01 to 31, a year of two to four digits, separated by \<open>/\<close> or \<open>-\<close>.
  \<open>date_matches\<close> are the matches the code produces on a text span, those of the
  full pattern and then those of the partial pattern (lines 59-60).
\<close>

fun overlap :: "nat \<times> nat \<times> 'a \<Rightarrow> nat \<times> nat \<times> 'a \<Rightarrow> bool" where
  "overlap (i, j, g) (i', j', g') = (i < j' \<and> i' < j)"

fun disjoint_spans :: "(nat \<times> nat \<times> 'a) list \<Rightarrow> bool" where
  "disjoint_spans [] = True"
| "disjoint_spans (m # ms) = (list_all (\<lambda>m'. \<not> overlap m m') ms \<and> disjoint_spans ms)"

fun ordered_spans :: "nat \<Rightarrow> (nat \<times> nat \<times> 'a) list \<Rightarrow> bool" where
  "ordered_spans lo [] = True"
| "ordered_spans lo ((i, j, g) # ms) = (lo \<le> i \<and> i < j \<and> ordered_spans j ms)"

definition date_matches :: "string \<Rightarrow> (nat \<times> nat \<times> string list) list" where
  "date_matches s = concat (map (\<lambda>p. finditer p 0 s) date_patterns)"

definition month_token :: "string \<Rightarrow> bool" where
  "month_token m = (m \<in> set [''01'', ''02'', ''03'', ''04'', ''05'', ''06'', ''07'', ''08'', ''09'',
                              ''10'', ''11'', ''12''])"

definition day_token :: "string \<Rightarrow> bool" where
  "day_token d = (d \<in> set [''01'', ''02'', ''03'', ''04'', ''05'', ''06'', ''07'', ''08'', ''09'',
                            ''10'', ''11'', ''12'', ''13'', ''14'', ''15'', ''16'', ''17'', ''18'', ''19'',
                            ''20'', ''21'', ''22'', ''23'', ''24'', ''25'', ''26'', ''27'', ''28'', ''29'',
                            ''30'', ''31''])"

definition year_token :: "string \<Rightarrow> bool" where
  "year_token y = (2 \<le> length y \<and> length y \<le> 4 \<and> list_all is_digit y)"

definition pattern_text :: "pattern \<Rightarrow> string list \<Rightarrow> string \<Rightarrow> bool" where
  "pattern_text p g t =
     (case (p, g) of
        (Full, [m, d, y]) \<Rightarrow>
          month_token m \<and> day_token d \<and> year_token y
          \<and> t \<in> set [m @ [a] @ d @ [b] @ y. a \<leftarrow> ''/-'', b \<leftarrow> ''/-'']
      | (Partial, [m, y]) \<Rightarrow>
          month_token m \<and> year_token y \<and> t \<in> set [m @ [a] @ y. a \<leftarrow> ''/-'']
      | _ \<Rightarrow> False)"

text \<open>
  The three tiers, in the words of the specification: the candidates found on the
  lines that match a keyword; those found on the line after such a line; those found
  in the whole text. \<open>found\<close> is the date pattern matcher on a span, each match with its
  year resolved. \<open>first_tier\<close> is the first of the three that is not empty.
\<close>

definition candidate :: "string \<Rightarrow> string list \<Rightarrow> string list" where
  "candidate century g =
     (case g of
        [m, d, y] \<Rightarrow> [m @ ''/'' @ d @ ''/'' @ resolve_century century y]
      | [m, y] \<Rightarrow> [m @ ''/'' @ resolve_century century y]
      | _ \<Rightarrow> [])"

definition found :: "string \<Rightarrow> string \<Rightarrow> string list" where
  "found century span = concat [candidate century g. p \<leftarrow> date_patterns, g \<leftarrow> re_findall p span]"

definition tier_same_line :: "string \<Rightarrow> string list \<Rightarrow> string list" where
  "tier_same_line century lines = concat [found century l. l \<leftarrow> lines, keyword_search l]"

definition tier_next_line :: "string \<Rightarrow> string list \<Rightarrow> string list" where
  "tier_next_line century lines =
     concat [found century (lines ! (i + 1)).
               i \<leftarrow> [0..<length lines], keyword_search (lines ! i), i + 1 < length lines]"

definition tier_global :: "string \<Rightarrow> string \<Rightarrow> string list" where
  "tier_global century text = found century text"

definition first_tier :: "int \<Rightarrow> string \<Rightarrow> string list" where
  "first_tier now_year text =
     (let century = current_century now_year; lines = splitlines text
      in if tier_same_line century lines \<noteq> [] then tier_same_line century lines
         else if tier_next_line century lines \<noteq> [] then tier_next_line century lines
         else tier_global century text)"

text \<open>
  The ranker, in the words of the specification. \<open>date_like\<close> holds of a date string
  of three or two parts, each a string of digits that is not empty; \<open>num\<close> is the
  number such a part denotes; \<open>ranking_key\<close> is the sort key, year times 10000 plus
  month times 100 plus day, the day of a partial date being 1.
\<close>

definition digit_string :: "string \<Rightarrow> bool" where
  "digit_string s = (case s of [] \<Rightarrow> False | _ \<Rightarrow> list_all is_digit s)"

definition date_like :: "string \<Rightarrow> bool" where
  "date_like d =
     (case split_slash d of
        [mm, dd, yyyy] \<Rightarrow> digit_string mm \<and> digit_string dd \<and> digit_string yyyy
      | [mm, yyyy] \<Rightarrow> digit_string mm \<and> digit_string yyyy
      | _ \<Rightarrow> False)"

definition num :: "string \<Rightarrow> int" where
  "num s = int (foldl (\<lambda>a c. a * 10 + digit_val c) 0 s)"

definition ranking_key :: "string \<Rightarrow> int" where
  "ranking_key d =
     (case split_slash d of
        [mm, dd, yyyy] \<Rightarrow> num yyyy * 10000 + num mm * 100 + num dd
      | [mm, yyyy] \<Rightarrow> num yyyy * 10000 + num mm * 100 + 1
      | _ \<Rightarrow> 0)"

text \<open>
  What \<open>extract_expiry_dates\<close> can return: a month 01 to 12, for a full date a day
  01 to 31, and a year of three or four digits, joined by \<open>/\<close>.
\<close>

definition extracted_year :: "string \<Rightarrow> bool" where
  "extracted_year y = ((length y = 3 \<or> length y = 4) \<and> list_all is_digit y)"

definition extracted_date :: "string \<Rightarrow> bool" where
  "extracted_date d =
     (case split_slash d of
        [mm, dd, yyyy] \<Rightarrow> month_token mm \<and> day_token dd \<and> extracted_year yyyy
      | [mm, yyyy] \<Rightarrow> month_token mm \<and> extracted_year yyyy
      | _ \<Rightarrow> False)"


text \<open>
  The matches of a pattern in a text, in the words of the specification.
  \<open>greedy_year\<close> says that the year group took all the digits it could: it has four
  digits, or the text ends after it, or the next character is not a digit.
  \<open>match_at\<close> says that a span of the text is a match of the pattern, the year
  greedy. \<open>matches_of p s L\<close> says that \<open>L\<close> lists, from left to right, matches of the
  pattern in \<open>s\<close> that do not overlap and that leave no position uncovered where a text
  of the shape of the pattern starts.
\<close>

definition greedy_year :: "string list \<Rightarrow> string \<Rightarrow> bool" where
  "greedy_year g rest = (case rest of [] \<Rightarrow> True | c # _ \<Rightarrow> length (last g) = 4 \<or> \<not> is_digit c)"

definition match_at :: "pattern \<Rightarrow> string \<Rightarrow> nat \<times> nat \<times> string list \<Rightarrow> bool" where
  "match_at p s m =
     (case m of (i, j, g) \<Rightarrow>
        i < j \<and> j \<le> length s \<and> pattern_text p g (take (j - i) (drop i s))
        \<and> greedy_year g (drop j s))"

definition covers :: "(nat \<times> nat \<times> string list) list \<Rightarrow> nat \<Rightarrow> bool" where
  "covers L k = list_ex (\<lambda>(i, j, g). i \<le> k \<and> k < j) L"

definition matches_of :: "pattern \<Rightarrow> string \<Rightarrow> (nat \<times> nat \<times> string list) list \<Rightarrow> bool" where
  "matches_of p s L =
     (ordered_spans 0 L \<and> list_all (match_at p s) L
      \<and> (\<forall>k < length s. \<forall>n g. pattern_text p g (take n (drop k s)) \<longrightarrow> covers L k))"


section \<open>Properties of the library functions\<close>

lemma split_slash_not_Nil [simp]: "split_slash s \<noteq> []"
  by (induction s) (auto split: list.splits)

lemma join_split_slash: "join_slash (split_slash s) = s"
proof (induction s)
  case Nil
  show ?case by simp
next
  case (Cons c s)
  obtain p ps where ps: "split_slash s = p # ps"
    by (cases "split_slash s") simp_all
  with Cons show ?case
    by (cases ps) auto
qed

lemma split_slash_no_slash: "p \<in> set (split_slash s) \<Longrightarrow> CHR ''/'' \<notin> set p"
  by (induction s arbitrary: p) (auto split: list.splits if_splits)

lemma split_slash_append:
  "CHR ''/'' \<notin> set a \<Longrightarrow> split_slash (a @ CHR ''/'' # b) = a # split_slash b"
  by (induction a) auto

lemma split_slash_single: "CHR ''/'' \<notin> set a \<Longrightarrow> split_slash a = [a]"
  by (induction a) auto

lemma split_slash_2:
  "CHR ''/'' \<notin> set a \<Longrightarrow> CHR ''/'' \<notin> set b \<Longrightarrow> split_slash (a @ ''/'' @ b) = [a, b]"
  by (simp add: split_slash_append split_slash_single)

lemma split_slash_3:
  "CHR ''/'' \<notin> set a \<Longrightarrow> CHR ''/'' \<notin> set b \<Longrightarrow> CHR ''/'' \<notin> set c \<Longrightarrow>
     split_slash (a @ ''/'' @ b @ ''/'' @ c) = [a, b, c]"
  by (simp add: split_slash_append split_slash_single)

lemma is_digit_not_slash: "is_digit c \<Longrightarrow> c \<noteq> CHR ''/''"
  by (auto simp: is_digit_def)

lemma digits_no_slash: "digits n s \<Longrightarrow> CHR ''/'' \<notin> set s"
  by (auto simp: digits_def list_all_iff dest: is_digit_not_slash)

lemma zfill_fixed: "w \<le> length s \<Longrightarrow> zfill w s = s"
  by (simp add: zfill_def)

lemma length_zfill: "w \<le> length (zfill w s)"
  by (auto simp: zfill_def split: list.splits)

lemma zfill_zfill: "zfill w (zfill w s) = zfill w s"
  by (rule zfill_fixed) (rule length_zfill)

lemma zfill_no_slash: "CHR ''/'' \<notin> set s \<Longrightarrow> CHR ''/'' \<notin> set (zfill w s)"
  by (auto simp: zfill_def split: list.splits if_splits)

lemma zfill_not_Nil: "s \<noteq> [] \<Longrightarrow> zfill w s \<noteq> []"
  by (auto simp: zfill_def split: list.splits)

lemma is_digit_digit_char: "is_digit (digit_char n)"
proof -
  have "0 \<le> n mod 10" "n mod 10 < 10" by simp_all
  then have "n mod 10 = 0 \<or> n mod 10 = 1 \<or> n mod 10 = 2 \<or> n mod 10 = 3 \<or> n mod 10 = 4
     \<or> n mod 10 = 5 \<or> n mod 10 = 6 \<or> n mod 10 = 7 \<or> n mod 10 = 8 \<or> n mod 10 = 9"
    by arith
  then show ?thesis
    unfolding is_digit_def digit_char_def by (elim disjE) simp_all
qed

lemma str_digits_digits: "list_all is_digit (str_digits n)"
proof (induction n rule: str_digits.induct)
  case (1 n)
  then show ?case
    by (subst str_digits.simps) (simp add: is_digit_digit_char)
qed

lemma str_digits_not_Nil: "str_digits n \<noteq> []"
  by (subst str_digits.simps) simp

lemma py_str_not_Nil: "py_str n \<noteq> []"
  by (simp add: py_str_def str_digits_not_Nil)

lemma py_str_no_slash: "CHR ''/'' \<notin> set (py_str n)"
  using str_digits_digits[of n] str_digits_digits[of "- n"]
  by (auto simp: py_str_def list_all_iff is_digit_def)

lemma current_century_not_Nil: "current_century n \<noteq> []"
  by (simp add: current_century_def py_str_not_Nil)

lemma current_century_no_slash: "CHR ''/'' \<notin> set (current_century n)"
  using py_str_no_slash[of n] by (auto simp: current_century_def dest: in_set_takeD)

lemma resolve_century_idem:
  "c \<noteq> [] \<Longrightarrow> resolve_century c (resolve_century c y) = resolve_century c y"
  by (auto simp: resolve_century_def)

lemma resolve_century_no_slash:
  "CHR ''/'' \<notin> set c \<Longrightarrow> CHR ''/'' \<notin> set y \<Longrightarrow> CHR ''/'' \<notin> set (resolve_century c y)"
  by (auto simp: resolve_century_def)

lemma normalize_3:
  assumes "CHR ''/'' \<notin> set a" "CHR ''/'' \<notin> set b" "CHR ''/'' \<notin> set c" "b \<noteq> []"
  shows "normalize_expiry_date now (a @ ''/'' @ b @ ''/'' @ c)
         = Some (zfill 2 a @ ''/'' @ zfill 2 b @ ''/'' @ resolve_century (current_century now) c)"
  using assms by (simp add: normalize_expiry_date_def split_slash_3[simplified] truthy_def)

lemma normalize_2:
  assumes "CHR ''/'' \<notin> set a" "CHR ''/'' \<notin> set c"
  shows "normalize_expiry_date now (a @ ''/'' @ c)
         = Some (zfill 2 a @ ''/'' @ resolve_century (current_century now) c)"
  using assms by (simp add: normalize_expiry_date_def split_slash_2[simplified])

lemma normalize_idem:
  "Option.bind (normalize_expiry_date now d) (normalize_expiry_date now) = normalize_expiry_date now d"
proof (cases "normalize_expiry_date now d")
  case None
  then show ?thesis by simp
next
  case (Some r)
  let ?cc = "current_century now"
  have ns: "\<And>p. p \<in> set (split_slash d) \<Longrightarrow> CHR ''/'' \<notin> set p"
    by (rule split_slash_no_slash)
  consider (three) a b c where "split_slash d = [a, b, c]" "b \<noteq> []"
    | (empty_day) a c where "split_slash d = [a, [], c]"
    | (two) a c where "split_slash d = [a, c]"
    using Some by (auto simp: normalize_expiry_date_def split: list.splits)
  then have "normalize_expiry_date now r = Some r"
  proof cases
    case three
    then have r: "r = zfill 2 a @ ''/'' @ zfill 2 b @ ''/'' @ resolve_century ?cc c"
      using Some by (simp add: normalize_expiry_date_def truthy_def)
    have "CHR ''/'' \<notin> set a" "CHR ''/'' \<notin> set b" "CHR ''/'' \<notin> set c"
      using ns three by simp_all
    then have "CHR ''/'' \<notin> set (zfill 2 a)" "CHR ''/'' \<notin> set (zfill 2 b)"
       "CHR ''/'' \<notin> set (resolve_century ?cc c)" "zfill 2 b \<noteq> []"
      using three by (simp_all add: zfill_no_slash resolve_century_no_slash
          current_century_no_slash zfill_not_Nil)
    from normalize_3[OF this] show ?thesis
      by (simp add: r zfill_zfill resolve_century_idem current_century_not_Nil)
  next
    case empty_day
    then have r: "r = zfill 2 a @ ''/'' @ resolve_century ?cc c"
      using Some by (simp add: normalize_expiry_date_def truthy_def)
    have "CHR ''/'' \<notin> set a" "CHR ''/'' \<notin> set c"
      using ns empty_day by simp_all
    then have "CHR ''/'' \<notin> set (zfill 2 a)" "CHR ''/'' \<notin> set (resolve_century ?cc c)"
      by (simp_all add: zfill_no_slash resolve_century_no_slash current_century_no_slash)
    from normalize_2[OF this] show ?thesis
      by (simp add: r zfill_zfill resolve_century_idem current_century_not_Nil)
  next
    case two
    then have r: "r = zfill 2 a @ ''/'' @ resolve_century ?cc c"
      using Some by (simp add: normalize_expiry_date_def)
    have "CHR ''/'' \<notin> set a" "CHR ''/'' \<notin> set c"
      using ns two by simp_all
    then have "CHR ''/'' \<notin> set (zfill 2 a)" "CHR ''/'' \<notin> set (resolve_century ?cc c)"
      by (simp_all add: zfill_no_slash resolve_century_no_slash current_century_no_slash)
    from normalize_2[OF this] show ?thesis
      by (simp add: r zfill_zfill resolve_century_idem current_century_not_Nil)
  qed
  with Some show ?thesis by simp
qed

lemma normalize_fixed:
  assumes "normalized_date d"
  shows "normalize_expiry_date now d = Some d"
proof -
  have j: "join_slash (split_slash d) = d" by (rule join_split_slash)
  consider (three) a b c where "split_slash d = [a, b, c]" "digits 2 a" "digits 2 b" "digits 4 c"
    | (two) a c where "split_slash d = [a, c]" "digits 2 a" "digits 4 c"
    using assms by (auto simp: normalized_date_def split: list.splits)
  then show ?thesis
  proof cases
    case three
    moreover from three j have "d = a @ ''/'' @ b @ ''/'' @ c" by simp
    ultimately show ?thesis
      by (simp add: normalize_expiry_date_def zfill_fixed resolve_century_def truthy_def digits_def)
        auto
  next
    case two
    moreover from two j have "d = a @ ''/'' @ c" by simp
    ultimately show ?thesis
      by (simp add: normalize_expiry_date_def zfill_fixed resolve_century_def digits_def)
  qed
qed


section \<open>Normalization\<close>

text \<open>
  Claim C9: normalization is idempotent. Normalizing the result of a normalization
  gives that result again, for every date string and whatever the clock shows; a
  date that is already normalized (\<open>MM/DD/YYYY\<close> or \<open>MM/YYYY\<close> with a year of four
  digits) is returned as it is; and \<open>7/4/2023\<close> is normalized to \<open>07/04/2023\<close>.
\<close>

theorem normalize_idempotent:
  "Option.bind (normalize_expiry_date now d) (normalize_expiry_date now)
     = normalize_expiry_date now d
   \<and> (normalized_date d \<longrightarrow> normalize_expiry_date now d = Some d)
   \<and> normalize_expiry_date now ''7/4/2023'' = Some ''07/04/2023''"
proof -
  have "normalize_expiry_date now ''7/4/2023'' = Some ''07/04/2023''"
    by (simp add: normalize_expiry_date_def zfill_def resolve_century_def truthy_def)
  then show ?thesis
    using normalize_idem normalize_fixed by blast
qed

theorem normalize_idempotent_witness:
  "normalized_date ''07/04/2023''
   \<and> normalize_expiry_date 2025 ''07/04/2023'' = Some ''07/04/2023''
   \<and> Option.bind (normalize_expiry_date 2025 ''07/04/2023'') (normalize_expiry_date 2025)
       = Some ''07/04/2023''"
proof -
  have h: "normalized_date ''07/04/2023''"
    by (simp add: normalized_date_def digits_def is_digit_def)
  from normalize_idempotent[of 2025 "''07/04/2023''"] h show ?thesis
    by simp
qed


section \<open>The century\<close>

lemma str_digits_ge10: "10 \<le> n \<Longrightarrow> str_digits n = str_digits (n div 10) @ [digit_char n]"
  by (subst str_digits.simps) simp

lemma str_digits_lt10: "n < 10 \<Longrightarrow> str_digits n = [digit_char n]"
  by (subst str_digits.simps) simp

lemma length_str_digits_2: "10 \<le> n \<Longrightarrow> n < 100 \<Longrightarrow> length (str_digits n) = 2"
  by (simp add: str_digits_ge10 str_digits_lt10)

lemma century_of_year:
  assumes "1000 \<le> n" "n \<le> 9999"
  shows "take 2 (py_str n) = py_str (n div 100)"
proof -
  have a: "10 \<le> n div 100" "n div 100 < 100" using assms by auto
  have "(n div 10) div 10 = n div 100"
    by (simp add: div_mult2_eq[symmetric])
  then have "str_digits n = str_digits (n div 100) @ [digit_char (n div 10), digit_char n]"
    using assms a by (simp add: str_digits_ge10)
  then show ?thesis using length_str_digits_2[OF a] a assms
    by (simp add: py_str_def)
qed

lemma py_str_20: "py_str 20 = ''20''"
  by (simp add: py_str_def str_digits_ge10 str_digits_lt10 digit_char_def)

lemma current_century_20: "2000 \<le> n \<Longrightarrow> n \<le> 2099 \<Longrightarrow> current_century n = ''20''"
proof -
  assume "2000 \<le> n" "n \<le> 2099"
  then have "n div 100 = 20" "1000 \<le> n" "n \<le> 9999" by auto
  then show ?thesis
    by (simp add: current_century_def century_of_year py_str_20)
qed

lemma digit_val_digit_char: "digit_val (digit_char n) = nat (n mod 10)"
proof -
  have "0 \<le> n mod 10" "n mod 10 < 10" by simp_all
  then have "n mod 10 = 0 \<or> n mod 10 = 1 \<or> n mod 10 = 2 \<or> n mod 10 = 3 \<or> n mod 10 = 4
     \<or> n mod 10 = 5 \<or> n mod 10 = 6 \<or> n mod 10 = 7 \<or> n mod 10 = 8 \<or> n mod 10 = 9"
    by arith
  then show ?thesis
    unfolding digit_val_def digit_char_def by (elim disjE) simp_all
qed

lemma num_snoc: "num (s @ [c]) = num s * 10 + int (digit_val c)"
  by (simp add: num_def)

lemma num_str_digits: "0 \<le> n \<Longrightarrow> num (str_digits n) = n"
proof (induction n rule: str_digits.induct)
  case (1 n)
  show ?case
  proof (cases "n < 10")
    case True
    with 1(2) show ?thesis
      by (simp add: str_digits_lt10 num_def digit_val_digit_char)
  next
    case False
    then have "0 \<le> n div 10" by simp
    with 1(1)[OF False] have "num (str_digits (n div 10)) = n div 10" by simp
    with False show ?thesis
      by (simp add: str_digits_ge10 num_snoc digit_val_digit_char)
  qed
qed

lemma num_py_str: "0 \<le> n \<Longrightarrow> num (py_str n) = n"
  by (simp add: py_str_def num_str_digits)

lemma num_current_century:
  assumes "1000 \<le> now" "now \<le> 9999"
  shows "num (current_century now) = now div 100"
proof -
  have "0 \<le> now div 100" using assms by simp
  then show ?thesis
    using assms by (simp add: current_century_def century_of_year num_py_str)
qed

lemma py_str_19_21: "py_str 19 = ''19''" "py_str 21 = ''21''"
  by (simp_all add: py_str_def str_digits_ge10 str_digits_lt10 digit_char_def)

text \<open>
  Claim C6: the century resolver prefixes a year token of exactly two characters
  with the first two characters of the current year as \<open>str\<close> prints it, and leaves
  every other token (four digits, three digits, any other length) as it is; so do the
  candidates built from a match of either pattern. For a current year of four digits
  the prefix has two digits and denotes the number of the year divided by 100: it is
  the century of the current year, 20 in 2025, 21 in 2125, 19 in 1999, not a fixed one.
\<close>

theorem century_resolver:
  "resolve_century (current_century now) y
     = (if length y = 2 then take 2 (py_str now) @ y else y)
   \<and> add_match (current_century now) [m, d, y] []
     = [m @ ''/'' @ d @ ''/'' @ (if length y = 2 then take 2 (py_str now) @ y else y)]
   \<and> add_match (current_century now) [m, y] []
     = [m @ ''/'' @ (if length y = 2 then take 2 (py_str now) @ y else y)]
   \<and> (1000 \<le> now \<and> now \<le> 9999 \<longrightarrow>
        take 2 (py_str now) = py_str (now div 100) \<and> length (py_str (now div 100)) = 2
        \<and> num (current_century now) = now div 100 \<and> length (current_century now) = 2)"
proof -
  have "1000 \<le> now \<and> now \<le> 9999 \<longrightarrow>
        take 2 (py_str now) = py_str (now div 100) \<and> length (py_str (now div 100)) = 2
        \<and> num (current_century now) = now div 100 \<and> length (current_century now) = 2"
  proof
    assume a: "1000 \<le> now \<and> now \<le> 9999"
    then have "10 \<le> now div 100" "now div 100 < 100" by auto
    then have l: "length (py_str (now div 100)) = 2"
      by (simp add: py_str_def length_str_digits_2)
    from a have c: "take 2 (py_str now) = py_str (now div 100)"
      by (simp add: century_of_year)
    from a have n: "num (current_century now) = now div 100"
      by (simp add: num_current_century)
    from l c n show "take 2 (py_str now) = py_str (now div 100) \<and> length (py_str (now div 100)) = 2
        \<and> num (current_century now) = now div 100 \<and> length (current_century now) = 2"
      by (simp add: current_century_def)
  qed
  moreover have "resolve_century (current_century now) y
     = (if length y = 2 then take 2 (py_str now) @ y else y)"
    by (simp add: resolve_century_def current_century_def)
  moreover have "add_match (current_century now) [m, d, y] []
     = [m @ ''/'' @ d @ ''/'' @ (if length y = 2 then take 2 (py_str now) @ y else y)]"
    by (simp add: resolve_century_def current_century_def add_match_def set_add_def)
  moreover have "add_match (current_century now) [m, y] []
     = [m @ ''/'' @ (if length y = 2 then take 2 (py_str now) @ y else y)]"
    by (simp add: resolve_century_def current_century_def add_match_def set_add_def)
  ultimately show ?thesis by (simp only: simp_thms)
qed

theorem century_resolver_witness:
  "(1000::int) \<le> 2025 \<and> (2025::int) \<le> 9999
   \<and> resolve_century (current_century 2025) ''99'' = ''2099''
   \<and> resolve_century (current_century 2025) ''2030'' = ''2030''
   \<and> resolve_century (current_century 2025) ''203'' = ''203''
   \<and> add_match (current_century 2025) [''07'', ''99''] [] = [''07/2099'']
   \<and> (1000::int) \<le> 2125 \<and> (2125::int) \<le> 9999
   \<and> resolve_century (current_century 2125) ''99'' = ''2199''
   \<and> num (current_century 2125) = 21
   \<and> (1000::int) \<le> 1999 \<and> (1999::int) \<le> 9999
   \<and> resolve_century (current_century 1999) ''07'' = ''1907''
   \<and> num (current_century 1999) = 19"
proof -
  have d: "(2025::int) div 100 = 20" "(2125::int) div 100 = 21" "(1999::int) div 100 = 19"
    by simp_all
  show ?thesis
    using century_resolver[of 2025 "''99''" "''07''" "''04''"]
      century_resolver[of 2025 "''2030''" "''07''" "''04''"]
      century_resolver[of 2025 "''203''" "''07''" "''04''"]
      century_resolver[of 2125 "''99''" "''07''" "''04''"]
      century_resolver[of 1999 "''07''" "''07''" "''04''"]
    by (simp add: d py_str_20 py_str_19_21)
qed

section \<open>The clock and the result\<close>

lemma normalize_century:
  "current_century y1 = current_century y2 \<Longrightarrow>
     normalize_expiry_date y1 d = normalize_expiry_date y2 d"
  by (simp add: normalize_expiry_date_def split: list.splits)

lemma collect_century:
  "current_century y1 = current_century y2 \<Longrightarrow>
     collect_candidates y1 t = collect_candidates y2 t"
  by (simp add: collect_candidates_def)

text \<open>
  Claim C5, as stated, fails: \<open>extract_expiry_dates\<close> has no parameter for the
  current date, it reads the clock, and its result changes with the clock. On the
  text \<open>EXP 01/99\<close> it returns \<open>01/2099\<close> when the clock shows 2025 and \<open>01/2199\<close>
  when it shows 2125.
\<close>

theorem clock_dependence:
  "extract_expiry_dates id 2025 ''EXP 01/99'' = Inr [''01/2099'']
   \<and> extract_expiry_dates id 2125 ''EXP 01/99'' = Inr [''01/2199'']"
  by code_simp

text \<open>
  Claim C5, amended: the result depends on the clock through the century only. Two
  runs on the same text, with the same iteration order of the sets, return the same
  result whenever the years the clock shows at the two runs start with the same two
  characters.
\<close>

theorem same_century_same_result:
  assumes "current_century y1 = current_century y2"
  shows "extract_expiry_dates iter y1 t = extract_expiry_dates iter y2 t"
proof -
  have "normalize_expiry_date y1 = normalize_expiry_date y2"
    using normalize_century[OF assms] by (intro ext)
  then show ?thesis
    by (simp add: extract_expiry_dates_def normalize_all_def collect_century[OF assms])
qed

theorem same_century_same_result_witness:
  "current_century 2025 = current_century 2099
   \<and> extract_expiry_dates id 2025 ''EXP 01/99'' = extract_expiry_dates id 2099 ''EXP 01/99''"
proof -
  have h: "current_century 2025 = current_century 2099"
    by (simp add: current_century_20)
  from same_century_same_result[OF h] h show ?thesis
    by simp
qed

section \<open>The date pattern matcher\<close>

lemma rx_month_suffix: "rx_month s = Some (m, r) \<Longrightarrow> s = m @ r \<and> length m = 2"
  by (auto simp del: list.set simp add: rx_month_def split: list.splits if_splits)

lemma rx_day_suffix: "rx_day s = Some (m, r) \<Longrightarrow> s = m @ r \<and> length m = 2"
  by (auto simp del: list.set simp add: rx_day_def split: list.splits if_splits)

lemma rx_sep_suffix: "rx_sep s = Some r \<Longrightarrow> \<exists>c. s = c # r \<and> (c = CHR ''/'' \<or> c = CHR ''-'')"
  by (auto simp: rx_sep_def split: list.splits if_splits)

lemma takeWhile_take_prefix: "takeWhile P (take n s) @ drop (length (takeWhile P (take n s))) s = s"
proof -
  have "takeWhile P (take n s) = take (length (takeWhile P (take n s))) s"
    by (metis append_eq_conv_conj append_take_drop_id takeWhile_dropWhile_id append.assoc)
  then show ?thesis
    by (metis append_take_drop_id)
qed

lemma rx_year_suffix:
  "rx_year s = Some (y, r) \<Longrightarrow> s = y @ r \<and> 2 \<le> length y \<and> length y \<le> 4 \<and> list_all is_digit y"
proof -
  assume a: "rx_year s = Some (y, r)"
  let ?ds = "takeWhile is_digit (take 4 s)"
  from a have y: "y = ?ds" and r: "r = drop (length ?ds) s" and l: "2 \<le> length ?ds"
    by (auto simp: rx_year_def Let_def split: if_splits)
  have "length ?ds \<le> length (take 4 s)" by (rule length_takeWhile_le)
  then have "length ?ds \<le> 4" by simp
  moreover have "list_all is_digit ?ds"
    by (auto simp: list_all_iff dest: set_takeWhileD)
  ultimately show ?thesis
    using y r l takeWhile_take_prefix[of is_digit 4 s] by simp
qed

lemma day_0: "b \<in> set ''123456789'' \<Longrightarrow> day_token [CHR ''0'', b]"
  unfolding day_token_def by auto

lemma day_1: "b \<in> set ''0123456789'' \<Longrightarrow> day_token [CHR ''1'', b]"
  unfolding day_token_def by auto

lemma day_2: "b \<in> set ''0123456789'' \<Longrightarrow> day_token [CHR ''2'', b]"
  unfolding day_token_def by auto

lemma day_3: "b \<in> set ''01'' \<Longrightarrow> day_token [CHR ''3'', b]"
  unfolding day_token_def by auto

lemma day_chars:
  assumes "a = CHR ''0'' \<and> b \<in> set ''123456789'' \<or> a \<in> set ''12'' \<and> b \<in> set ''0123456789''
     \<or> a = CHR ''3'' \<and> b \<in> set ''01''"
  shows "day_token [a, b]"
proof -
  have 12: "a \<in> set ''12'' \<Longrightarrow> a = CHR ''1'' \<or> a = CHR ''2''" by simp
  from assms 12 consider "a = CHR ''0''" "b \<in> set ''123456789''"
    | "a = CHR ''1''" "b \<in> set ''0123456789''"
    | "a = CHR ''2''" "b \<in> set ''0123456789''"
    | "a = CHR ''3''" "b \<in> set ''01''"
    by blast
  then show ?thesis
    by cases (simp_all only: day_0 day_1 day_2 day_3)
qed

lemma month_chars:
  "a = CHR ''0'' \<and> b \<in> set ''123456789'' \<or> a = CHR ''1'' \<and> b \<in> set ''012''
     \<Longrightarrow> month_token [a, b]"
  unfolding month_token_def by (elim disjE conjE) auto

lemma rx_month_token: "rx_month s = Some (m, r) \<Longrightarrow> month_token m"
proof -
  assume "rx_month s = Some (m, r)"
  then obtain a b where "m = [a, b]"
    "a = CHR ''0'' \<and> b \<in> set ''123456789'' \<or> a = CHR ''1'' \<and> b \<in> set ''012''"
    by (auto simp del: list.set simp add: rx_month_def split: list.splits if_splits)
  then show ?thesis by (simp only: month_chars)
qed

lemma rx_day_token: "rx_day s = Some (m, r) \<Longrightarrow> day_token m"
proof -
  assume "rx_day s = Some (m, r)"
  then obtain a b where "m = [a, b]"
    "a = CHR ''0'' \<and> b \<in> set ''123456789'' \<or> a \<in> set ''12'' \<and> b \<in> set ''0123456789''
     \<or> a = CHR ''3'' \<and> b \<in> set ''01''"
    by (auto simp del: list.set simp add: rx_day_def split: list.splits if_splits)
  then show ?thesis by (simp only: day_chars)
qed

lemma re_match_Full:
  assumes "re_match Full s = Some (g, r)"
  shows "\<exists>m a d b y. g = [m, d, y] \<and> s = m @ [a] @ d @ [b] @ y @ r
           \<and> month_token m \<and> day_token d \<and> year_token y
           \<and> (a = CHR ''/'' \<or> a = CHR ''-'') \<and> (b = CHR ''/'' \<or> b = CHR ''-'')"
proof -
  from assms obtain m r1 r2 d r3 r4 y where
    m: "rx_month s = Some (m, r1)" and s1: "rx_sep r1 = Some r2"
    and d: "rx_day r2 = Some (d, r3)" and s2: "rx_sep r3 = Some r4"
    and y: "rx_year r4 = Some (y, r)" and g: "g = [m, d, y]"
    by (auto split: option.splits prod.splits)
  from rx_sep_suffix[OF s1] obtain a where a: "r1 = a # r2" "a = CHR ''/'' \<or> a = CHR ''-''" by blast
  from rx_sep_suffix[OF s2] obtain b where b: "r3 = b # r4" "b = CHR ''/'' \<or> b = CHR ''-''" by blast
  have "s = m @ [a] @ d @ [b] @ y @ r"
    using rx_month_suffix[OF m] rx_day_suffix[OF d] rx_year_suffix[OF y] a b by simp
  moreover have "year_token y"
    using rx_year_suffix[OF y] by (simp add: year_token_def)
  ultimately show ?thesis
    using g a b rx_month_token[OF m] rx_day_token[OF d] by blast
qed

lemma re_match_Partial:
  assumes "re_match Partial s = Some (g, r)"
  shows "\<exists>m a y. g = [m, y] \<and> s = m @ [a] @ y @ r
           \<and> month_token m \<and> year_token y \<and> (a = CHR ''/'' \<or> a = CHR ''-'')"
proof -
  from assms obtain m r1 r2 y where
    m: "rx_month s = Some (m, r1)" and s1: "rx_sep r1 = Some r2"
    and y: "rx_year r2 = Some (y, r)" and g: "g = [m, y]"
    by (auto split: option.splits prod.splits)
  from rx_sep_suffix[OF s1] obtain a where a: "r1 = a # r2" "a = CHR ''/'' \<or> a = CHR ''-''" by blast
  have "s = m @ [a] @ y @ r"
    using rx_month_suffix[OF m] rx_year_suffix[OF y] a by simp
  moreover have "year_token y"
    using rx_year_suffix[OF y] by (simp add: year_token_def)
  ultimately show ?thesis
    using g a rx_month_token[OF m] by blast
qed

lemma re_match_text:
  assumes "re_match p s = Some (g, r)"
  shows "\<exists>t. s = t @ r \<and> t \<noteq> [] \<and> pattern_text p g t"
proof (cases p)
  case Full
  with assms re_match_Full[of s g r] obtain m a d b y where
    h: "g = [m, d, y]" "s = m @ [a] @ d @ [b] @ y @ r" "month_token m" "day_token d"
      "year_token y" "a = CHR ''/'' \<or> a = CHR ''-''" "b = CHR ''/'' \<or> b = CHR ''-''"
    by blast
  let ?t = "m @ [a] @ d @ [b] @ y"
  have "pattern_text p g ?t"
    using h Full by (auto simp: pattern_text_def)
  moreover have "s = ?t @ r" using h by simp
  ultimately show ?thesis by blast
next
  case Partial
  with assms re_match_Partial[of s g r] obtain m a y where
    h: "g = [m, y]" "s = m @ [a] @ y @ r" "month_token m"
      "year_token y" "a = CHR ''/'' \<or> a = CHR ''-''"
    by blast
  let ?t = "m @ [a] @ y"
  have "pattern_text p g ?t"
    using h Partial by (auto simp: pattern_text_def)
  moreover have "s = ?t @ r" using h by simp
  ultimately show ?thesis by blast
qed

lemma re_match_shorter: "re_match p s = Some (g, r) \<Longrightarrow> length r < length s"
  using re_match_text[of p s g r] by auto

lemma re_match_drop:
  "re_match p s = Some (g, r) \<Longrightarrow> r = drop (length s - length r) s"
  using re_match_text[of p s g r] by auto

lemma ordered_spans_mono: "ordered_spans lo ms \<Longrightarrow> lo' \<le> lo \<Longrightarrow> ordered_spans lo' ms"
  by (cases ms) auto

lemma finditer_ordered: "ordered_spans pos (finditer p pos s)"
proof (induction p pos s rule: finditer.induct)
  case (1 p pos)
  show ?case by simp
next
  case (2 p pos c cs)
  show ?case
  proof (cases "re_match p (c # cs)")
    case None
    with 2(1) have "ordered_spans (pos + 1) (finditer p (pos + 1) cs)" by simp
    then have "ordered_spans pos (finditer p (pos + 1) cs)"
      by (rule ordered_spans_mono) simp
    with None show ?thesis by simp
  next
    case (Some a)
    obtain g rest where a: "a = (g, rest)" by (cases a)
    with Some have m: "re_match p (c # cs) = Some (g, rest)" by simp
    then have l: "length rest < length (c # cs)" by (rule re_match_shorter)
    from 2(2)[OF Some a[symmetric] l] m l show ?thesis by simp
  qed
qed

lemma ordered_spans_bounds:
  "ordered_spans lo ms \<Longrightarrow> (i, j, g) \<in> set ms \<Longrightarrow> lo \<le> i \<and> i < j"
proof (induction ms arbitrary: lo)
  case Nil
  then show ?case by simp
next
  case (Cons m ms)
  obtain i' j' g' where m: "m = (i', j', g')" by (cases m)
  with Cons.prems have h: "lo \<le> i'" "i' < j'" "ordered_spans j' ms" by simp_all
  show ?case
  proof (cases "(i, j, g) = m")
    case True
    with m h show ?thesis by simp
  next
    case False
    with Cons.prems have "(i, j, g) \<in> set ms" by simp
    from Cons.IH[OF h(3) this] h show ?thesis by simp
  qed
qed

lemma ordered_spans_disjoint: "ordered_spans lo ms \<Longrightarrow> disjoint_spans ms"
proof (induction ms arbitrary: lo)
  case Nil
  show ?case by simp
next
  case (Cons m ms)
  obtain i j g where m: "m = (i, j, g)" by (cases m)
  with Cons.prems have h: "ordered_spans j ms" by simp
  have "\<not> overlap m m'" if "m' \<in> set ms" for m'
  proof -
    obtain i' j' g' where m': "m' = (i', j', g')" by (cases m')
    with that ordered_spans_bounds[OF h] have "j \<le> i'" by blast
    with m m' show ?thesis by simp
  qed
  with Cons.IH[OF h] show ?case by (simp add: list_all_iff)
qed

lemma finditer_sound:
  "(i, j, g) \<in> set (finditer p pos s) \<Longrightarrow>
     pos \<le> i \<and> i < j \<and> j \<le> pos + length s
     \<and> re_match p (drop (i - pos) s) = Some (g, drop (j - pos) s)"
proof (induction p pos s rule: finditer.induct)
  case (1 p pos)
  then show ?case by simp
next
  case (2 p pos c cs)
  show ?case
  proof (cases "re_match p (c # cs)")
    case None
    with 2(4) have "(i, j, g) \<in> set (finditer p (pos + 1) cs)" by simp
    from 2(1)[OF None this] have h: "pos + 1 \<le> i" "i < j" "j \<le> pos + 1 + length cs"
      "re_match p (drop (i - (pos + 1)) cs) = Some (g, drop (j - (pos + 1)) cs)" by simp_all
    from h(1) have "i - pos = Suc (i - (pos + 1))" by simp
    moreover from h(1,2) have "j - pos = Suc (j - (pos + 1))" by simp
    ultimately show ?thesis using h by simp
  next
    case (Some a)
    obtain g0 rest where a: "a = (g0, rest)" by (cases a)
    with Some have m: "re_match p (c # cs) = Some (g0, rest)" by simp
    then have l: "length rest < length (c # cs)" by (rule re_match_shorter)
    define n where "n = length (c # cs) - length rest"
    have rest: "rest = drop n (c # cs)"
      unfolding n_def using m by (rule re_match_drop)
    have n: "0 < n" "n \<le> length (c # cs)" using l by (simp_all add: n_def)
    from 2(4) m l have "(i, j, g) = (pos, pos + n, g0) \<or> (i, j, g) \<in> set (finditer p (pos + n) rest)"
      by (simp add: n_def)
    then show ?thesis
    proof
      assume "(i, j, g) = (pos, pos + n, g0)"
      with m n rest show ?thesis by simp
    next
      assume "(i, j, g) \<in> set (finditer p (pos + n) rest)"
      from 2(2)[OF Some a[symmetric] l this[unfolded n_def]]
      have h: "pos + n \<le> i" "i < j" "j \<le> pos + n + length rest"
        "re_match p (drop (i - (pos + n)) rest) = Some (g, drop (j - (pos + n)) rest)"
        by (simp_all add: n_def)
      have "drop (i - (pos + n)) rest = drop (i - pos) (c # cs)"
        using h(1) unfolding rest by (simp del: drop.simps drop_Suc_Cons add: add.commute)
      moreover have "drop (j - (pos + n)) rest = drop (j - pos) (c # cs)"
        using h(1,2) unfolding rest by (simp del: drop.simps drop_Suc_Cons add: add.commute)
      moreover have "pos + n + length rest = pos + length (c # cs)"
        using l by (simp add: n_def)
      ultimately show ?thesis using h by simp
    qed
  qed
qed

lemma finditer_complete:
  "k < length s \<Longrightarrow> re_match p (drop k s) \<noteq> None \<Longrightarrow>
     \<exists>(i, j, g) \<in> set (finditer p pos s). i \<le> pos + k \<and> pos + k < j"
proof (induction p pos s arbitrary: k rule: finditer.induct)
  case (1 p pos)
  then show ?case by simp
next
  case (2 p pos c cs)
  show ?case
  proof (cases "re_match p (c # cs)")
    case None
    with 2(5) have "k \<noteq> 0" by (cases k) auto
    then obtain k' where k: "k = Suc k'" by (cases k) auto
    with 2(4,5) have "k' < length cs" "re_match p (drop k' cs) \<noteq> None" by simp_all
    from 2(1)[OF None this] k None show ?thesis by auto
  next
    case (Some a)
    obtain g0 rest where a: "a = (g0, rest)" by (cases a)
    with Some have m: "re_match p (c # cs) = Some (g0, rest)" by simp
    then have l: "length rest < length (c # cs)" by (rule re_match_shorter)
    define n where "n = length (c # cs) - length rest"
    have rest: "rest = drop n (c # cs)"
      unfolding n_def using m by (rule re_match_drop)
    have n: "0 < n" "n \<le> length (c # cs)" using l by (simp_all add: n_def)
    have f: "finditer p pos (c # cs) = (pos, pos + n, g0) # finditer p (pos + n) rest"
      using m l by (simp add: n_def)
    show ?thesis
    proof (cases "k < n")
      case True
      then show ?thesis unfolding f by simp
    next
      case False
      then have "drop k (c # cs) = drop (k - n) rest"
        unfolding rest by (simp del: drop.simps drop_Suc_Cons)
      with 2(5) have r1: "re_match p (drop (k - n) rest) \<noteq> None" by simp
      have r2: "k - n < length rest" using False 2(4) l n by (simp add: n_def)
      from 2(2)[OF Some a[symmetric] l r2 r1] False show ?thesis
        unfolding f by (auto simp: n_def)
    qed
  qed
qed

lemma rx_month_of_token: "month_token m \<Longrightarrow> rx_month (m @ r) = Some (m, r)"
  by (auto simp: month_token_def rx_month_def)

lemma rx_day_of_token: "day_token d \<Longrightarrow> rx_day (d @ r) = Some (d, r)"
  by (auto simp: day_token_def rx_day_def)

lemma rx_year_of_token:
  assumes "year_token y"
  shows "rx_year (y @ r) \<noteq> None"
proof -
  from assms obtain c1 c2 y' where y: "y = c1 # c2 # y'" and d: "is_digit c1" "is_digit c2"
    by (cases y; cases "tl y") (auto simp: year_token_def)
  then have "2 \<le> length (takeWhile is_digit (take 4 (y @ r)))"
    by (simp add: numeral_eq_Suc)
  then show ?thesis by (simp add: rx_year_def Let_def)
qed

lemma re_match_of_text:
  assumes "pattern_text p g t"
  shows "re_match p (t @ r) \<noteq> None"
proof (cases p)
  case Full
  with assms obtain m d y a b where h: "g = [m, d, y]" "month_token m" "day_token d" "year_token y"
    "t = m @ [a] @ d @ [b] @ y" "a = CHR ''/'' \<or> a = CHR ''-''" "b = CHR ''/'' \<or> b = CHR ''-''"
    by (auto simp: pattern_text_def split: list.splits)
  from rx_year_of_token[OF h(4), of r] obtain y' r' where "rx_year (y @ r) = Some (y', r')"
    by auto
  then show ?thesis
    using h Full rx_month_of_token[OF h(2), of "[a] @ d @ [b] @ y @ r"]
      rx_day_of_token[OF h(3), of "[b] @ y @ r"]
    by (auto simp: rx_sep_def)
next
  case Partial
  with assms obtain m y a where h: "g = [m, y]" "month_token m" "year_token y"
    "t = m @ [a] @ y" "a = CHR ''/'' \<or> a = CHR ''-''"
    by (auto simp: pattern_text_def split: list.splits)
  from rx_year_of_token[OF h(3), of r] obtain y' r' where "rx_year (y @ r) = Some (y', r')"
    by auto
  then show ?thesis
    using h Partial rx_month_of_token[OF h(2), of "[a] @ y @ r"]
    by (auto simp: rx_sep_def)
qed

lemma finditer_text:
  assumes "(i, j, g) \<in> set (finditer p 0 s)"
  shows "i < j \<and> j \<le> length s \<and> pattern_text p g (take (j - i) (drop i s))"
proof -
  from finditer_sound[OF assms] have h: "i < j" "j \<le> length s"
    "re_match p (drop i s) = Some (g, drop j s)" by simp_all
  from re_match_text[OF h(3)] obtain t where t: "drop i s = t @ drop j s" "pattern_text p g t"
    by blast
  from t(1) have "length (drop i s) = length t + length (drop j s)"
    by (metis length_append)
  with h have "length t = j - i" by simp
  with t(1) have "t = take (j - i) (drop i s)" by (metis append_eq_conv_conj)
  with t h show ?thesis by simp
qed

lemma finditer_covers:
  assumes "k < length s" "pattern_text p g (take n (drop k s))"
  shows "\<exists>(i, j, g') \<in> set (finditer p 0 s). i \<le> k \<and> k < j"
proof -
  have "take n (drop k s) @ drop n (drop k s) = drop k s"
    by (rule append_take_drop_id)
  with re_match_of_text[OF assms(2), of "drop n (drop k s)"]
  have "re_match p (drop k s) \<noteq> None" by (simp del: drop_drop)
  from finditer_complete[OF assms(1) this, of 0] show ?thesis by simp
qed


lemma rx_year_greedy:
  assumes "rx_year s = Some (y, r)"
  shows "case r of [] \<Rightarrow> True | c # _ \<Rightarrow> length y = 4 \<or> \<not> is_digit c"
proof (cases r)
  case Nil
  then show ?thesis by simp
next
  case (Cons c cs)
  let ?t = "take 4 s"
  from assms have y: "y = takeWhile is_digit ?t" and r: "r = drop (length y) s"
    by (auto simp: rx_year_def Let_def split: if_splits)
  show ?thesis
  proof (cases "length y = 4")
    case True
    then show ?thesis using Cons by simp
  next
    case False
    have le: "length y \<le> length ?t" unfolding y by (rule length_takeWhile_le)
    have ls: "length y < length s" using r Cons by (cases "length y < length s") auto
    with le False have lt: "length y < length ?t" by simp
    then have "\<not> is_digit (?t ! length y)"
      unfolding y by (rule nth_length_takeWhile)
    moreover have "?t ! length y = s ! length y" using lt by simp
    moreover have "s ! length y = c"
      using r Cons ls by (metis hd_drop_conv_nth list.sel(1))
    ultimately show ?thesis using Cons by simp
  qed
qed

lemma re_match_greedy:
  assumes "re_match p s = Some (g, r)"
  shows "greedy_year g r"
proof (cases p)
  case Full
  with assms obtain m d y r4 where "rx_year r4 = Some (y, r)" "g = [m, d, y]"
    by (auto split: option.splits prod.splits)
  with rx_year_greedy[of r4 y r] show ?thesis by (simp add: greedy_year_def split: list.splits)
next
  case Partial
  with assms obtain m y r2 where "rx_year r2 = Some (y, r)" "g = [m, y]"
    by (auto split: option.splits prod.splits)
  with rx_year_greedy[of r2 y r] show ?thesis by (simp add: greedy_year_def split: list.splits)
qed

lemma rx_year_exact:
  assumes "year_token y" "case r of [] \<Rightarrow> True | c # _ \<Rightarrow> length y = 4 \<or> \<not> is_digit c"
  shows "rx_year (y @ r) = Some (y, r)"
proof -
  from assms(1) have l: "2 \<le> length y" "length y \<le> 4" and d: "\<forall>c \<in> set y. is_digit c"
    by (simp_all add: year_token_def list_all_iff)
  have "takeWhile is_digit (take 4 (y @ r)) = y"
  proof (cases "length y = 4")
    case True
    then have "take 4 (y @ r) = y" by simp
    with d show ?thesis by (simp add: takeWhile_eq_all_conv)
  next
    case False
    with l have k: "take 4 (y @ r) = y @ take (4 - length y) r" "0 < 4 - length y" by simp_all
    have "takeWhile is_digit (take (4 - length y) r) = []"
      using assms(2) False k(2) by (cases r; cases "4 - length y") simp_all
    with d k show ?thesis by (simp add: takeWhile_append2)
  qed
  with l show ?thesis by (simp add: rx_year_def Let_def)
qed

lemma re_match_exact:
  assumes "pattern_text p g t" "greedy_year g r"
  shows "re_match p (t @ r) = Some (g, r)"
proof (cases p)
  case Full
  with assms(1) obtain m d y a b where h: "g = [m, d, y]" "month_token m" "day_token d" "year_token y"
    "t = m @ [a] @ d @ [b] @ y" "a = CHR ''/'' \<or> a = CHR ''-''" "b = CHR ''/'' \<or> b = CHR ''-''"
    by (auto simp: pattern_text_def split: list.splits)
  from assms(2) h(1) have "case r of [] \<Rightarrow> True | c # _ \<Rightarrow> length y = 4 \<or> \<not> is_digit c"
    by (simp add: greedy_year_def split: list.splits)
  from rx_year_exact[OF h(4) this] show ?thesis
    using h Full rx_month_of_token[OF h(2), of "[a] @ d @ [b] @ y @ r"]
      rx_day_of_token[OF h(3), of "[b] @ y @ r"]
    by (auto simp: rx_sep_def)
next
  case Partial
  with assms(1) obtain m y a where h: "g = [m, y]" "month_token m" "year_token y"
    "t = m @ [a] @ y" "a = CHR ''/'' \<or> a = CHR ''-''"
    by (auto simp: pattern_text_def split: list.splits)
  from assms(2) h(1) have "case r of [] \<Rightarrow> True | c # _ \<Rightarrow> length y = 4 \<or> \<not> is_digit c"
    by (simp add: greedy_year_def split: list.splits)
  from rx_year_exact[OF h(3) this] show ?thesis
    using h Partial rx_month_of_token[OF h(2), of "[a] @ y @ r"]
    by (auto simp: rx_sep_def)
qed

lemma match_at_iff:
  "match_at p s (i, j, g) \<longleftrightarrow>
     i < j \<and> j \<le> length s \<and> re_match p (drop i s) = Some (g, drop j s)"
proof
  assume m: "match_at p s (i, j, g)"
  then have h: "i < j" "j \<le> length s" "pattern_text p g (take (j - i) (drop i s))"
    "greedy_year g (drop j s)" by (simp_all add: match_at_def)
  have "take (j - i) (drop i s) @ drop (j - i) (drop i s) = drop i s"
    by (rule append_take_drop_id)
  moreover have "drop (j - i) (drop i s) = drop j s" using h(1) by simp
  ultimately have "take (j - i) (drop i s) @ drop j s = drop i s" by simp
  with re_match_exact[OF h(3,4)] h show
    "i < j \<and> j \<le> length s \<and> re_match p (drop i s) = Some (g, drop j s)" by simp
next
  assume a: "i < j \<and> j \<le> length s \<and> re_match p (drop i s) = Some (g, drop j s)"
  then have h: "i < j" "j \<le> length s" "re_match p (drop i s) = Some (g, drop j s)" by simp_all
  from re_match_text[OF h(3)] obtain t where t: "drop i s = t @ drop j s" "pattern_text p g t"
    by blast
  from t(1) have "length (drop i s) = length t + length (drop j s)"
    by (metis length_append)
  with h have "length t = j - i" by simp
  with t(1) have "t = take (j - i) (drop i s)" by (metis append_eq_conv_conj)
  with t h re_match_greedy[OF h(3)] show "match_at p s (i, j, g)"
    by (simp add: match_at_def)
qed

lemma finditer_unique:
  assumes "ordered_spans pos L"
    and "\<And>i j g. (i, j, g) \<in> set L \<Longrightarrow>
           j \<le> pos + length s \<and> re_match p (drop (i - pos) s) = Some (g, drop (j - pos) s)"
    and "\<And>k. k < length s \<Longrightarrow> re_match p (drop k s) \<noteq> None \<Longrightarrow>
           \<exists>(i, j, g) \<in> set L. i \<le> pos + k \<and> pos + k < j"
  shows "L = finditer p pos s"
  using assms
proof (induction p pos s arbitrary: L rule: finditer.induct)
  case (1 p pos)
  show ?case
  proof (cases L)
    case Nil
    then show ?thesis by simp
  next
    case (Cons m ms)
    obtain i j g where m: "m = (i, j, g)" by (cases m)
    with Cons "1.prems"(1) have "pos \<le> i" "i < j" by simp_all
    moreover from "1.prems"(2)[of i j g] Cons m have "j \<le> pos" by simp
    ultimately show ?thesis by simp
  qed
next
  case (2 p pos c cs)
  note ord = "2.prems"(1) and snd = "2.prems"(2) and cov = "2.prems"(3)
  show ?case
  proof (cases "re_match p (c # cs)")
    case None
    have o1: "ordered_spans (pos + 1) L"
    proof (cases L)
      case Nil
      then show ?thesis by simp
    next
      case (Cons m ms)
      obtain i j g where m: "m = (i, j, g)" by (cases m)
      with Cons ord have h: "pos \<le> i" "i < j" "ordered_spans j ms" by simp_all
      have "i \<noteq> pos"
      proof
        assume "i = pos"
        with snd[of i j g] Cons m None show False by simp
      qed
      with h Cons m show ?thesis by simp
    qed
    have s1: "j \<le> pos + 1 + length cs
        \<and> re_match p (drop (i - (pos + 1)) cs) = Some (g, drop (j - (pos + 1)) cs)"
      if "(i, j, g) \<in> set L" for i j g
    proof -
      from ordered_spans_bounds[OF o1 that] have b: "pos + 1 \<le> i" "i < j" by simp_all
      then have "i - pos = Suc (i - (pos + 1))" "j - pos = Suc (j - (pos + 1))" by simp_all
      with snd[OF that] show ?thesis by simp
    qed
    have c1: "\<exists>(i, j, g) \<in> set L. i \<le> pos + 1 + k \<and> pos + 1 + k < j"
      if "k < length cs" "re_match p (drop k cs) \<noteq> None" for k
      using cov[of "Suc k"] that by simp
    from "2.IH"(1)[OF None o1 s1 c1] None show ?thesis by simp
  next
    case (Some a)
    obtain g0 rest where a: "a = (g0, rest)" by (cases a)
    with Some have m: "re_match p (c # cs) = Some (g0, rest)" by simp
    then have l: "length rest < length (c # cs)" by (rule re_match_shorter)
    define n where "n = length (c # cs) - length rest"
    have rest: "rest = drop n (c # cs)"
      unfolding n_def using m by (rule re_match_drop)
    have n: "0 < n" "n \<le> length (c # cs)" using l by (simp_all add: n_def)
    have f: "finditer p pos (c # cs) = (pos, pos + n, g0) # finditer p (pos + n) rest"
      using m l by (simp add: n_def)
    from cov[of 0] m obtain i j g where e: "(i, j, g) \<in> set L" "i \<le> pos" "pos < j"
      by auto
    then obtain h L' where L: "L = h # L'" by (cases L) auto
    obtain i1 j1 g1 where h: "h = (i1, j1, g1)" by (cases h)
    from ord L h have o: "pos \<le> i1" "i1 < j1" "ordered_spans j1 L'" by simp_all
    have "(i, j, g) \<notin> set L'"
    proof
      assume "(i, j, g) \<in> set L'"
      from ordered_spans_bounds[OF o(3) this] o e show False by simp
    qed
    with e L h have hd: "i1 = i" "j1 = j" "g1 = g" by simp_all
    with o e have i1: "i1 = pos" by simp
    from snd[of i1 j1 g1] L h i1 m have j1b: "j1 \<le> pos + length (c # cs)"
      and g1: "g1 = g0" and r1: "drop (j1 - pos) (c # cs) = rest" by simp_all
    from r1 have "length (c # cs) - (j1 - pos) = length rest"
      by (metis length_drop)
    with j1b o i1 l have j1: "j1 = pos + n" by (simp add: n_def)
    have o2: "ordered_spans (pos + n) L'" using o(3) j1 by simp
    have s2: "j' \<le> pos + n + length rest
        \<and> re_match p (drop (i' - (pos + n)) rest) = Some (g', drop (j' - (pos + n)) rest)"
      if "(i', j', g') \<in> set L'" for i' j' g'
    proof -
      from ordered_spans_bounds[OF o2 that] have b: "pos + n \<le> i'" "i' < j'" by simp_all
      have "drop (i' - (pos + n)) rest = drop (i' - pos) (c # cs)"
        using b unfolding rest by (simp del: drop.simps drop_Suc_Cons add: add.commute)
      moreover have "drop (j' - (pos + n)) rest = drop (j' - pos) (c # cs)"
        using b unfolding rest by (simp del: drop.simps drop_Suc_Cons add: add.commute)
      moreover have "pos + n + length rest = pos + length (c # cs)"
        using l by (simp add: n_def)
      moreover have "(i', j', g') \<in> set L" using that L by simp
      ultimately show ?thesis using snd[of i' j' g'] by simp
    qed
    have c2: "\<exists>(i', j', g') \<in> set L'. i' \<le> pos + n + k \<and> pos + n + k < j'"
      if k1: "k < length rest" and k2: "re_match p (drop k rest) \<noteq> None" for k
    proof -
      have "drop k rest = drop (k + n) (c # cs)"
        unfolding rest by (simp del: drop.simps drop_Suc_Cons)
      moreover have "k + n < length (c # cs)" using k1 l by (simp add: n_def)
      ultimately obtain i' j' g' where x: "(i', j', g') \<in> set L" "i' \<le> pos + (k + n)"
        "pos + (k + n) < j'"
        using cov[of "k + n"] k2 by auto
      have "(i', j', g') \<noteq> h" using x(3) h j1 by auto
      with x L show ?thesis by (auto simp: add.commute add.left_commute)
    qed
    from "2.IH"(2)[OF Some a[symmetric] l o2[unfolded n_def] s2[unfolded n_def] c2[unfolded n_def]]
    have "L' = finditer p (pos + n) rest" by (simp add: n_def)
    with L h i1 j1 g1 f show ?thesis by simp
  qed
qed

lemma finditer_match_at:
  assumes "(i, j, g) \<in> set (finditer p 0 s)"
  shows "match_at p s (i, j, g)"
  using finditer_sound[OF assms] by (simp add: match_at_iff)

lemma re_match_has_text:
  assumes "re_match p u \<noteq> None"
  shows "\<exists>n g. pattern_text p g (take n u)"
proof -
  from assms obtain g r where "re_match p u = Some (g, r)" by auto
  from re_match_text[OF this] obtain t where "u = t @ r" "pattern_text p g t" by blast
  then have "pattern_text p g (take (length t) u)" by simp
  then show ?thesis by blast
qed

lemma matches_of_finditer: "matches_of p s (finditer p 0 s)"
proof -
  have "list_all (match_at p s) (finditer p 0 s)"
    using finditer_match_at[of _ _ _ p s] by (auto simp: list_all_iff)
  moreover have "covers (finditer p 0 s) k"
    if "k < length s" "pattern_text p g (take n (drop k s))" for k n g
    using finditer_covers[OF that] by (auto simp: covers_def list_ex_iff)
  ultimately show ?thesis
    using finditer_ordered[of 0 p s] by (simp add: matches_of_def)
qed

lemma matches_of_unique:
  assumes "matches_of p s L"
  shows "L = finditer p 0 s"
proof (rule finditer_unique)
  show "ordered_spans 0 L" using assms by (simp add: matches_of_def)
next
  fix i j g
  assume "(i, j, g) \<in> set L"
  with assms have "match_at p s (i, j, g)" by (auto simp: matches_of_def list_all_iff)
  then show "j \<le> 0 + length s \<and> re_match p (drop (i - 0) s) = Some (g, drop (j - 0) s)"
    by (simp add: match_at_iff)
next
  fix k
  assume k: "k < length s" "re_match p (drop k s) \<noteq> None"
  from re_match_has_text[OF k(2)] obtain n g where "pattern_text p g (take n (drop k s))"
    by blast
  with assms k(1) have "covers L k" by (auto simp: matches_of_def)
  then show "\<exists>(i, j, g) \<in> set L. i \<le> 0 + k \<and> 0 + k < j"
    by (auto simp: covers_def list_ex_iff)
qed


text \<open>
  Claim C8, as stated, fails: the matches produced on a text span are those of the two
  patterns, each searched on its own, and a match of the partial pattern can overlap a
  match of the full pattern. On \<open>01/15/2025\<close> the full pattern matches the whole
  text and the partial pattern matches its first five characters, \<open>01/15\<close>.
\<close>

theorem matcher_overlap:
  "date_matches ''01/15/2025'' = [(0, 10, [''01'', ''15'', ''2025'']), (0, 5, [''01'', ''15''])]
   \<and> overlap (0, 10, [''01'', ''15'', ''2025'']) (0, 5, [''01'', ''15''])
   \<and> \<not> disjoint_spans (date_matches ''01/15/2025'')"
  by code_simp


text \<open>
  Claim C8, amended: for each of the two patterns taken alone, the matcher produces
  exactly the matches of that pattern that do not overlap, from left to right. Each
  produced match is a text of the shape of the pattern (month 01 to 12, day 01 to 31,
  year of two to four digits, separators \<open>/\<close> or \<open>-\<close>) inside the span, its year
  group greedy (four digits, or up to the end of the text or to a character that is
  not a digit); the matches are in order and do not overlap; every position where a
  text of that shape starts lies inside a produced match; and the produced list is
  the only list of such matches. \<open>re.findall\<close> returns the groups of these matches.
  Matches of the partial pattern may overlap matches of the full pattern.
\<close>

theorem matcher_per_pattern:
  "ordered_spans 0 (finditer p 0 s)
   \<and> disjoint_spans (finditer p 0 s)
   \<and> (\<forall>(i, j, g) \<in> set (finditer p 0 s).
         i < j \<and> j \<le> length s \<and> pattern_text p g (take (j - i) (drop i s))
         \<and> greedy_year g (drop j s))
   \<and> (\<forall>k < length s. \<forall>n g. pattern_text p g (take n (drop k s)) \<longrightarrow>
         (\<exists>(i, j, g') \<in> set (finditer p 0 s). i \<le> k \<and> k < j))
   \<and> (\<forall>L. matches_of p s L \<longleftrightarrow> L = finditer p 0 s)
   \<and> re_findall p s = map (\<lambda>(i, j, g). g) (finditer p 0 s)"
proof -
  have 1: "\<forall>(i, j, g) \<in> set (finditer p 0 s).
         i < j \<and> j \<le> length s \<and> pattern_text p g (take (j - i) (drop i s))
         \<and> greedy_year g (drop j s)"
    using finditer_match_at[of _ _ _ p s] by (auto simp: match_at_def)
  have 2: "\<forall>k < length s. \<forall>n g. pattern_text p g (take n (drop k s)) \<longrightarrow>
         (\<exists>(i, j, g') \<in> set (finditer p 0 s). i \<le> k \<and> k < j)"
    using finditer_covers[of _ s p] by blast
  have 3: "\<forall>L. matches_of p s L \<longleftrightarrow> L = finditer p 0 s"
    using matches_of_finditer matches_of_unique by blast
  from 1 2 3 finditer_ordered[of 0 p s] ordered_spans_disjoint[OF finditer_ordered[of 0 p s]]
  show ?thesis by (simp only: re_findall_def simp_thms)
qed

lemma finditer_example:
  "finditer Full 0 ''x 01/15/2025 12-31-99'' =
     [(2, 12, [''01'', ''15'', ''2025'']), (13, 21, [''12'', ''31'', ''99''])]"
  by code_simp

lemma finditer_example2:
  "finditer Full 0 ''01/15/2012/31/99'' = [(0, 10, [''01'', ''15'', ''2012''])]"
  by code_simp

theorem matcher_per_pattern_witness:
  "finditer Full 0 ''x 01/15/2025 12-31-99'' =
     [(2, 12, [''01'', ''15'', ''2025'']), (13, 21, [''12'', ''31'', ''99''])]
   \<and> disjoint_spans (finditer Full 0 ''x 01/15/2025 12-31-99'')
   \<and> pattern_text Full [''01'', ''15'', ''2025''] ''01/15/2025''
   \<and> greedy_year [''01'', ''15'', ''2025''] '' 12-31-99''
   \<and> pattern_text Full [''12'', ''31'', ''99''] ''12-31-99''
   \<and> (13::nat) < length ''x 01/15/2025 12-31-99''
   \<and> (\<exists>(i, j, g') \<in> set (finditer Full 0 ''x 01/15/2025 12-31-99''). i \<le> 13 \<and> 13 < j)
   \<and> finditer Full 0 ''01/15/2012/31/99'' = [(0, 10, [''01'', ''15'', ''2012''])]
   \<and> matches_of Full ''01/15/2012/31/99'' [(0, 10, [''01'', ''15'', ''2012''])]
   \<and> \<not> matches_of Full ''01/15/2012/31/99''
         [(0, 8, [''01'', ''15'', ''20'']), (8, 16, [''12'', ''31'', ''99''])]"
proof -
  let ?s = "''x 01/15/2025 12-31-99''"
  note t = matcher_per_pattern[of Full ?s]
  have a: "(2, 12, [''01'', ''15'', ''2025'']) \<in> set (finditer Full 0 ?s)"
    and b: "(13, 21, [''12'', ''31'', ''99'']) \<in> set (finditer Full 0 ?s)"
    unfolding finditer_example by simp_all
  from t have t3: "\<forall>(i, j, g) \<in> set (finditer Full 0 ?s).
         i < j \<and> j \<le> length ?s \<and> pattern_text Full g (take (j - i) (drop i ?s))
         \<and> greedy_year g (drop j ?s)"
    by (elim conjE)
  from t have t4: "\<forall>k < length ?s. \<forall>n g. pattern_text Full g (take n (drop k ?s)) \<longrightarrow>
         (\<exists>(i, j, g') \<in> set (finditer Full 0 ?s). i \<le> k \<and> k < j)"
    by (elim conjE)
  from t have 5: "disjoint_spans (finditer Full 0 ?s)" by (elim conjE)
  from bspec[OF t3 a] have 1: "pattern_text Full [''01'', ''15'', ''2025''] ''01/15/2025''"
    and g1: "greedy_year [''01'', ''15'', ''2025''] '' 12-31-99''"
    by simp_all
  from bspec[OF t3 b] have 2: "pattern_text Full [''12'', ''31'', ''99''] ''12-31-99''"
    by simp
  have 3: "(13::nat) < length ?s" by simp
  have "take 8 (drop 13 ?s) = ''12-31-99''" by simp
  with 2 have "pattern_text Full [''12'', ''31'', ''99''] (take 8 (drop 13 ?s))" by (simp only:)
  with t4 3 have 4: "\<exists>(i, j, g') \<in> set (finditer Full 0 ?s). i \<le> 13 \<and> 13 < j"
    by blast
  let ?u = "''01/15/2012/31/99''"
  from matcher_per_pattern[of Full ?u]
  have u: "\<forall>L. matches_of Full ?u L \<longleftrightarrow> L = finditer Full 0 ?u"
    by (elim conjE)
  have 6: "matches_of Full ?u [(0, 10, [''01'', ''15'', ''2012''])]"
    using spec[OF u, of "[(0, 10, [''01'', ''15'', ''2012''])]"]
    by (simp only: finditer_example2)
  have 7: "\<not> matches_of Full ?u
         [(0, 8, [''01'', ''15'', ''20'']), (8, 16, [''12'', ''31'', ''99''])]"
    using spec[OF u, of "[(0, 8, [''01'', ''15'', ''20'']), (8, 16, [''12'', ''31'', ''99''])]"]
    by (simp only: finditer_example2) simp
  from 1 g1 2 3 4 5 6 7 finditer_example finditer_example2 show ?thesis
    by (simp only: simp_thms)
qed

section \<open>The three tiers\<close>

lemma set_set_add: "set (set_add x s) = insert x (set s)"
  by (auto simp: set_add_def)

lemma distinct_set_add: "distinct s \<Longrightarrow> distinct (set_add x s)"
  by (auto simp: set_add_def)

lemma set_add_match: "set (add_match c g cands) = set cands \<union> set (candidate c g)"
  by (auto simp: add_match_def candidate_def set_set_add split: list.splits)

lemma distinct_add_match: "distinct cands \<Longrightarrow> distinct (add_match c g cands)"
  by (auto simp: add_match_def distinct_set_add split: list.splits)

lemma set_fold_add_match:
  "set (fold (add_match c) gs cands) = set cands \<union> set (concat (map (candidate c) gs))"
  by (induction gs arbitrary: cands) (auto simp: set_add_match)

lemma distinct_fold_add_match:
  "distinct cands \<Longrightarrow> distinct (fold (add_match c) gs cands)"
  by (induction gs arbitrary: cands) (auto simp: distinct_add_match)

lemma set_scan: "set (scan c l cands) = set cands \<union> set (found c l)"
  by (auto simp: scan_def found_def date_patterns_def set_fold_add_match)

lemma distinct_scan: "distinct cands \<Longrightarrow> distinct (scan c l cands)"
  by (simp add: scan_def date_patterns_def distinct_fold_add_match)

lemma set_same_line:
  "set (same_line c ls cands) = set cands \<union> set (tier_same_line c ls)"
  unfolding same_line_def tier_same_line_def
  by (induction ls arbitrary: cands) (auto simp: set_scan)

lemma distinct_same_line: "distinct cands \<Longrightarrow> distinct (same_line c ls cands)"
  unfolding same_line_def
  by (induction ls arbitrary: cands) (auto simp: distinct_scan)

lemma set_next_line_fold:
  "set (fold (\<lambda>i c'. if keyword_search (ls ! i)
                      then (if i + 1 < length ls then scan c (ls ! (i + 1)) c' else c')
                      else c') idx cands)
   = set cands \<union> set (concat [found c (ls ! (i + 1)).
                               i \<leftarrow> idx, keyword_search (ls ! i), i + 1 < length ls])"
  by (induction idx arbitrary: cands) (auto simp: set_scan)

lemma set_next_line:
  "set (next_line c ls cands) = set cands \<union> set (tier_next_line c ls)"
  unfolding next_line_def tier_next_line_def by (rule set_next_line_fold)

lemma distinct_next_line: "distinct cands \<Longrightarrow> distinct (next_line c ls cands)"
proof -
  have "distinct cands \<Longrightarrow> distinct (fold (\<lambda>i c'. if keyword_search (ls ! i)
                      then (if i + 1 < length ls then scan c (ls ! (i + 1)) c' else c')
                      else c') idx cands)" for idx
    by (induction idx arbitrary: cands) (auto simp: distinct_scan)
  then show "distinct cands \<Longrightarrow> distinct (next_line c ls cands)"
    unfolding next_line_def by blast
qed


lemma collect_candidates_first_tier:
  "set (collect_candidates now text) = set (first_tier now text)
   \<and> distinct (collect_candidates now text)"
proof -
  let ?c = "current_century now" and ?ls = "splitlines text"
  have 1: "set (same_line ?c ?ls []) = set (tier_same_line ?c ?ls)"
    by (simp add: set_same_line)
  have 2: "set (next_line ?c ?ls []) = set (tier_next_line ?c ?ls)"
    by (simp add: set_next_line)
  have 3: "set (global_scan ?c text []) = set (tier_global ?c text)"
    by (simp add: global_scan_def tier_global_def set_scan)
  have e1: "same_line ?c ?ls [] = [] \<longleftrightarrow> tier_same_line ?c ?ls = []"
    using 1 by (metis set_empty)
  have e2: "next_line ?c ?ls [] = [] \<longleftrightarrow> tier_next_line ?c ?ls = []"
    using 2 by (metis set_empty)
  have d: "distinct (same_line ?c ?ls [])" "distinct (next_line ?c ?ls [])"
    "distinct (global_scan ?c text [])"
    by (simp_all add: distinct_same_line distinct_next_line distinct_scan global_scan_def)
  show ?thesis
    unfolding collect_candidates_def first_tier_def Let_def
    using 1 2 3 e1 e2 d by auto
qed

text \<open>
  Claim C2: the candidates that \<open>extract_expiry_dates\<close> goes on with are those of
  the same-line tier when it finds any; those of the next-line tier when the same-line
  tier finds none and the next-line tier finds some; those of the global scan when both
  keyword tiers find none. No candidate is held twice. With \<open>EXP 08/30/2028\<close> on a
  line, the date of another line is not a candidate; with a keyword line without a date,
  the dates of the next line are the candidates; without any keyword, all dates of the
  text are.
\<close>

theorem tiers_in_order:
  "set (collect_candidates now text) = set (first_tier now text)
   \<and> distinct (collect_candidates now text)
   \<and> collect_candidates 2025 (''EXP 08/30/2028'' @ [CHR 0x0A] @ ''seen 01/01/1999'')
       = [''08/30/2028'', ''08/2030'']
   \<and> collect_candidates 2025
         (''Expiry Date:'' @ [CHR 0x0A] @ ''08-30-28'' @ [CHR 0x0A] @ ''seen 01/01/1999'')
       = [''08/30/2028'', ''08/2030'']
   \<and> collect_candidates 2025
         (''Issued:'' @ [CHR 0x0A] @ ''08-30-28'' @ [CHR 0x0A] @ ''seen 01/01/1999'')
       = [''08/30/2028'', ''01/01/1999'', ''08/2030'', ''01/2001'']"
proof -
  have x1: "collect_candidates 2025 (''EXP 08/30/2028'' @ [CHR 0x0A] @ ''seen 01/01/1999'')
       = [''08/30/2028'', ''08/2030'']"
    by code_simp
  have x2: "collect_candidates 2025
         (''Expiry Date:'' @ [CHR 0x0A] @ ''08-30-28'' @ [CHR 0x0A] @ ''seen 01/01/1999'')
       = [''08/30/2028'', ''08/2030'']"
    by code_simp
  have x3: "collect_candidates 2025
         (''Issued:'' @ [CHR 0x0A] @ ''08-30-28'' @ [CHR 0x0A] @ ''seen 01/01/1999'')
       = [''08/30/2028'', ''01/01/1999'', ''08/2030'', ''01/2001'']"
    by code_simp
  from collect_candidates_first_tier x1 x2 x3 show ?thesis by (simp only:)
qed

section \<open>The ranker\<close>

lemma int_digits_foldl:
  "list_all is_digit s \<Longrightarrow> int_digits acc s = Some (foldl (\<lambda>a c. a * 10 + digit_val c) acc s)"
  by (induction s arbitrary: acc) simp_all

lemma is_digit_not_space: "is_digit c \<Longrightarrow> \<not> is_space c"
  by (auto simp: is_digit_def is_space_def)

lemma is_digit_not_sign: "is_digit c \<Longrightarrow> c \<noteq> CHR ''-'' \<and> c \<noteq> CHR ''+''"
  by (auto simp: is_digit_def)

lemma strip_digits:
  assumes "digit_string s"
  shows "rev (dropWhile is_space (rev (dropWhile is_space s))) = s"
proof -
  from assms obtain c cs where s: "s = c # cs" and d: "list_all is_digit s"
    by (cases s) (auto simp: digit_string_def)
  then have 1: "dropWhile is_space s = s"
    by (simp add: is_digit_not_space)
  have "rev s \<noteq> []" using s by simp
  then obtain e es where r: "rev s = e # es" by (cases "rev s") auto
  then have "e \<in> set s" by (metis list.set_intros(1) set_rev)
  with d have "is_digit e" by (simp add: list_all_iff)
  with r have "dropWhile is_space (rev s) = rev s"
    by (simp add: is_digit_not_space)
  with 1 show ?thesis by simp
qed

lemma py_int_digits: "digit_string s \<Longrightarrow> py_int s = Inr (num s)"
proof -
  assume a: "digit_string s"
  then obtain c cs where s: "s = c # cs" and d: "list_all is_digit s"
    by (cases s) (auto simp: digit_string_def)
  then have c: "is_digit c" by simp
  have "unsigned_int s = Some (foldl (\<lambda>a c. a * 10 + digit_val c) 0 s)"
    using s c int_digits_foldl[OF d, of 0] by (simp add: unsigned_int_def)
  then show ?thesis
    using s is_digit_not_sign[OF c]
    unfolding py_int_def strip_digits[OF a] Let_def num_def by simp
qed

lemma py_int_01: "py_int ''01'' = Inr 1"
  by (simp add: py_int_def unsigned_int_def is_digit_def is_space_def digit_val_def)

lemma date_key_ranking_key: "date_like d \<Longrightarrow> date_key d = Inr (ranking_key d)"
  by (auto simp: date_like_def date_key_def ranking_key_def py_int_digits py_int_01
      split: list.splits)

lemma with_keys_date_like:
  "list_all date_like xs \<Longrightarrow> with_keys xs = Inr (map (\<lambda>d. (ranking_key d, d)) xs)"
  by (induction xs) (simp_all add: date_key_ranking_key)

lemma filter_sorted_reverse:
  "filter P (sorted_reverse kds) = sorted_reverse (filter (P \<circ> snd) kds)"
  by (simp add: sorted_reverse_def filter_map rev_filter[symmetric] filter_sort)

lemma hd_sorted_reverse:
  assumes "kds \<noteq> []"
  shows "\<exists>k. (k, hd (sorted_reverse kds)) \<in> set kds \<and> (\<forall>(k', d') \<in> set kds. k' \<le> k)"
proof -
  let ?zs = "sort_key fst (rev kds)"
  have ne: "?zs \<noteq> []" using assms by (metis length_sort length_rev length_0_conv)
  have s: "sorted (map fst ?zs)" by (rule sorted_sort_key)
  have set: "set ?zs = set kds" by simp
  have hd: "hd (sorted_reverse kds) = snd (last ?zs)"
    using ne by (simp add: sorted_reverse_def hd_map hd_rev)
  have "last ?zs \<in> set kds" using ne set last_in_set by blast
  then have m: "(fst (last ?zs), snd (last ?zs)) \<in> set kds" by simp
  have "fst z \<le> fst (last ?zs)" if "z \<in> set kds" for z
  proof -
    from that set obtain i where i: "i < length ?zs" "?zs ! i = z"
      by (metis in_set_conv_nth)
    have "map fst ?zs ! i \<le> map fst ?zs ! (length ?zs - 1)"
      using s i(1) by (intro sorted_nth_mono) simp_all
    with i ne show ?thesis by (simp add: last_conv_nth)
  qed
  with m hd show ?thesis by (intro exI[of _ "fst (last ?zs)"]) auto
qed

lemma rank_spec:
  assumes "xs \<noteq> []" "list_all date_like xs"
  shows "\<exists>d. rank xs = Inr [d] \<and> d \<in> set xs
           \<and> (if list_ex is_full xs
               then is_full d \<and> (\<forall>e \<in> set xs. is_full e \<longrightarrow> ranking_key e \<le> ranking_key d)
               else (\<forall>e \<in> set xs. ranking_key e \<le> ranking_key d))"
proof -
  let ?kds = "map (\<lambda>d. (ranking_key d, d)) xs"
  let ?sorted = "sorted_reverse ?kds"
  have wk: "with_keys xs = Inr ?kds" using assms(2) by (rule with_keys_date_like)
  have f: "filter is_full ?sorted = sorted_reverse (filter (is_full \<circ> snd) ?kds)"
    by (rule filter_sorted_reverse)
  have fk: "filter (is_full \<circ> snd) ?kds = map (\<lambda>d. (ranking_key d, d)) (filter is_full xs)"
    by (simp add: filter_map comp_def)
  have len: "length (sorted_reverse l) = length l" for l :: "(int \<times> string) list"
    by (simp add: sorted_reverse_def)
  show ?thesis
  proof (cases "list_ex is_full xs")
    case True
    then have ne: "filter (is_full \<circ> snd) ?kds \<noteq> []"
      unfolding fk by (auto simp: list_ex_iff filter_empty_conv)
    then have "filter is_full ?sorted \<noteq> []"
      unfolding f by (metis len length_0_conv)
    then obtain d ds where d: "filter is_full ?sorted = d # ds"
      by (cases "filter is_full ?sorted") auto
    then have hd: "hd (sorted_reverse (filter (is_full \<circ> snd) ?kds)) = d"
      unfolding f by simp
    from hd_sorted_reverse[OF ne] hd obtain k where
      k: "(k, d) \<in> set (filter (is_full \<circ> snd) ?kds)"
        "\<forall>(k', d') \<in> set (filter (is_full \<circ> snd) ?kds). k' \<le> k"
      by auto
    from k(1) have dk: "d \<in> set xs" "is_full d" "k = ranking_key d" by auto
    have "ranking_key e \<le> ranking_key d" if "e \<in> set xs" "is_full e" for e
    proof -
      from that have "(ranking_key e, e) \<in> set (filter (is_full \<circ> snd) ?kds)" by auto
      with k(2) dk show ?thesis by blast
    qed
    moreover have "rank xs = Inr [d]"
      using assms(1) wk d by (simp add: rank_def)
    ultimately show ?thesis using True dk by auto
  next
    case False
    then have "filter is_full ?sorted = []"
      unfolding f fk by (auto simp: list_ex_iff sorted_reverse_def filter_empty_conv)
    moreover have ne: "?kds \<noteq> []" using assms(1) by simp
    then have "?sorted \<noteq> []" by (metis len length_0_conv)
    then obtain d ds where d: "?sorted = d # ds" by (cases ?sorted) auto
    then have hd: "hd ?sorted = d" by simp
    from hd_sorted_reverse[OF ne] hd obtain k where
      k: "(k, d) \<in> set ?kds" "\<forall>(k', d') \<in> set ?kds. k' \<le> k"
      by auto
    from k(1) have dk: "d \<in> set xs" "k = ranking_key d" by auto
    have "ranking_key e \<le> ranking_key d" if "e \<in> set xs" for e
    proof -
      from that have "(ranking_key e, e) \<in> set ?kds" by auto
      with k(2) dk show ?thesis by blast
    qed
    moreover have "rank xs = Inr [d]"
      using assms(1) wk d \<open>filter is_full ?sorted = []\<close> by (simp add: rank_def)
    ultimately show ?thesis using False dk by auto
  qed
qed



text \<open>
  Claim C1: \<open>extract_expiry_dates\<close> returns what the ranker (lines 113-127) returns on
  the set of normalized candidates. On every set of date strings that is not empty,
  whatever the order in which the set is iterated, the ranker returns one date of the
  set: when the set holds a full date, a full date whose sort key is the greatest among
  the full dates of the set; otherwise a partial date whose sort key is the greatest
  of the set. The sort key is the one \<open>date_key\<close> computes. On the set of \<open>12/2030\<close>
  and \<open>01/15/2025\<close> the ranker returns \<open>01/15/2025\<close>.
\<close>

theorem ranker_prefers_full_dates:
  "(iteration_order iter \<and> distinct xs \<and> xs \<noteq> [] \<and> list_all date_like xs \<longrightarrow>
      (\<exists>d. rank (iter xs) = Inr [d] \<and> d \<in> set xs
           \<and> date_key d = Inr (ranking_key d)
           \<and> (if list_ex is_full xs
               then is_full d \<and> (\<forall>e \<in> set xs. is_full e \<longrightarrow> ranking_key e \<le> ranking_key d)
               else (\<forall>e \<in> set xs. ranking_key e \<le> ranking_key d))))
   \<and> extract_expiry_dates iter now text
       = rank (iter (normalize_all now (iter (collect_candidates now text))))
   \<and> rank [''12/2030'', ''01/15/2025''] = Inr [''01/15/2025'']
   \<and> rank [''01/15/2025'', ''12/2030''] = Inr [''01/15/2025'']"
proof -
  have general: "\<exists>d. rank (iter xs) = Inr [d] \<and> d \<in> set xs
           \<and> date_key d = Inr (ranking_key d)
           \<and> (if list_ex is_full xs
               then is_full d \<and> (\<forall>e \<in> set xs. is_full e \<longrightarrow> ranking_key e \<le> ranking_key d)
               else (\<forall>e \<in> set xs. ranking_key e \<le> ranking_key d))"
    if h: "iteration_order iter" "distinct xs" "xs \<noteq> []" "list_all date_like xs"
  proof -
    from h(1,2) have s: "set (iter xs) = set xs"
      by (simp add: iteration_order_def)
    with h(3,4) have "iter xs \<noteq> []" "list_all date_like (iter xs)"
      by (auto simp: list_all_iff)
    from rank_spec[OF this] obtain d where d: "rank (iter xs) = Inr [d]" "d \<in> set (iter xs)"
      "if list_ex is_full (iter xs)
       then is_full d \<and> (\<forall>e \<in> set (iter xs). is_full e \<longrightarrow> ranking_key e \<le> ranking_key d)
       else (\<forall>e \<in> set (iter xs). ranking_key e \<le> ranking_key d)"
      by blast
    have "list_ex is_full (iter xs) = list_ex is_full xs"
      by (simp add: list_ex_iff s)
    moreover have "date_key d = Inr (ranking_key d)"
      using d(2) s h(4) by (simp add: list_all_iff date_key_ranking_key)
    ultimately show ?thesis using d s by auto
  qed
  have x1: "rank [''12/2030'', ''01/15/2025''] = Inr [''01/15/2025'']"
    by code_simp
  have x2: "rank [''01/15/2025'', ''12/2030''] = Inr [''01/15/2025'']"
    by code_simp
  have "extract_expiry_dates iter now text
       = rank (iter (normalize_all now (iter (collect_candidates now text))))"
    by (simp add: extract_expiry_dates_def)
  with general x1 x2 show ?thesis by blast
qed


theorem ranker_prefers_full_dates_witness:
  "iteration_order rev \<and> distinct [''12/2030'', ''01/15/2025'']
   \<and> [''12/2030'', ''01/15/2025''] \<noteq> [] \<and> list_all date_like [''12/2030'', ''01/15/2025'']
   \<and> list_ex is_full [''12/2030'', ''01/15/2025'']
   \<and> (\<exists>d. rank (rev [''12/2030'', ''01/15/2025'']) = Inr [d] \<and> is_full d
          \<and> d \<in> set [''12/2030'', ''01/15/2025''])"
proof -
  let ?xs = "[''12/2030'', ''01/15/2025'']"
  have 1: "iteration_order rev" by (simp add: iteration_order_def)
  have 2: "distinct ?xs" "?xs \<noteq> []" by simp_all
  have 3: "list_all date_like ?xs"
    by (simp add: date_like_def digit_string_def is_digit_def)
  have 4: "list_ex is_full ?xs" by (simp add: is_full_def)
  from ranker_prefers_full_dates[of rev ?xs] 1 2 3 4
  have "\<exists>d. rank (rev ?xs) = Inr [d] \<and> is_full d \<and> d \<in> set ?xs"
    by (simp only: simp_thms if_True) blast
  with 1 2 3 4 show ?thesis by (simp only: simp_thms)
qed

section \<open>The calendar\<close>

lemma ord2ymd_examples:
  "map ord2ymd [1, 365, 366, 1155, 1156, 1157, 146097, 146098, 738000, 3652059]
   = [(1, 1, 1), (1, 12, 31), (2, 1, 1), (4, 2, 29), (4, 3, 1), (4, 3, 2),
      (400, 12, 31), (401, 1, 1), (2021, 7, 29), (9999, 12, 31)]"
  by code_simp

lemma days_before_year_decomp:
  assumes "0 \<le> b" "b \<le> 3" "0 \<le> c" "c \<le> 24" "0 \<le> e" "e \<le> 3"
  shows "days_before_year (400 * a + 100 * b + 4 * c + e + 1)
         = 146097 * a + 36524 * b + 1461 * c + 365 * e"
proof -
  let ?y = "400 * a + 100 * b + 4 * c + e"
  have 4: "?y div 4 = 100 * a + 25 * b + c"
  proof -
    have "?y = 4 * (100 * a + 25 * b + c) + e" by simp
    then have "?y div 4 = (100 * a + 25 * b + c) + e div 4"
      by (simp only: div_mult_self4)
    then show ?thesis using assms by simp
  qed
  have 100: "?y div 100 = 4 * a + b"
  proof -
    have "?y = 100 * (4 * a + b) + (4 * c + e)" by simp
    then have "?y div 100 = (4 * a + b) + (4 * c + e) div 100"
      by (simp only: div_mult_self4)
    moreover have "0 \<le> 4 * c + e" "4 * c + e < 100" using assms by simp_all
    ultimately show ?thesis by simp
  qed
  have 400: "?y div 400 = a"
  proof -
    have "?y = 400 * a + (100 * b + 4 * c + e)" by simp
    then have "?y div 400 = a + (100 * b + 4 * c + e) div 400"
      by (simp only: div_mult_self4)
    moreover have "0 \<le> 100 * b + 4 * c + e" "100 * b + 4 * c + e < 400" using assms by simp_all
    ultimately show ?thesis by simp
  qed
  show ?thesis
    unfolding days_before_year_def using 4 100 400 by simp
qed

lemma is_leap_decomp:
  assumes "0 \<le> b" "b \<le> 3" "0 \<le> c" "c \<le> 24" "0 \<le> e" "e \<le> 3"
  shows "is_leap (400 * a + 100 * b + 4 * c + e + 1) = (e = 3 \<and> (b = 3 \<or> c < 24))"
proof -
  let ?y = "400 * a + 100 * b + 4 * c + e + 1"
  have 4: "?y mod 4 = (e + 1) mod 4"
  proof -
    have "?y = 4 * (100 * a + 25 * b + c) + (e + 1)" by simp
    then show ?thesis by (simp only: mod_mult_self4)
  qed
  have 100: "?y mod 100 = (4 * c + e + 1) mod 100"
  proof -
    have "?y = 100 * (4 * a + b) + (4 * c + e + 1)" by simp
    then show ?thesis by (simp only: mod_mult_self4)
  qed
  have 400: "?y mod 400 = (100 * b + 4 * c + e + 1) mod 400"
  proof -
    have "?y = 400 * a + (100 * b + 4 * c + e + 1)" by simp
    then show ?thesis by (simp only: mod_mult_self4)
  qed
  show ?thesis
    unfolding is_leap_def 4 100 400 using assms by arith
qed

lemma month_day_spec:
  assumes "0 \<le> n" "n < (if leap then 366 else 365)"
  shows "case month_day leap n of (m, d) \<Rightarrow>
           1 \<le> m \<and> m \<le> 12 \<and> 1 \<le> d
           \<and> d \<le> DAYS_IN_MONTH ! nat m + (if m = 2 \<and> leap then 1 else 0)
           \<and> DAYS_BEFORE_MONTH ! nat m + (if 2 < m \<and> leap then 1 else 0) + d = n + 1"
proof -
  define k where "k = (n + 50) div 32"
  have k: "32 * k \<le> n + 50" "n + 50 < 32 * k + 32"
    unfolding k_def by arith+
  with assms have "1 \<le> k" "k \<le> 12" by (auto split: if_splits)
  then have "k = 1 \<or> k = 2 \<or> k = 3 \<or> k = 4 \<or> k = 5 \<or> k = 6
    \<or> k = 7 \<or> k = 8 \<or> k = 9 \<or> k = 10 \<or> k = 11 \<or> k = 12"
    by arith
  then consider "k = 1" | "k = 2" | "k = 3" | "k = 4" | "k = 5" | "k = 6"
    | "k = 7" | "k = 8" | "k = 9" | "k = 10" | "k = 11" | "k = 12"
    by blast
  then show ?thesis
  proof cases
    case 1
    with k assms show ?thesis
      unfolding month_day_def Let_def k_def[symmetric]
      by (simp add: DAYS_BEFORE_MONTH_def DAYS_IN_MONTH_def)
  next
    case 2
    with k assms show ?thesis
      unfolding month_day_def Let_def k_def[symmetric]
      by (simp add: DAYS_BEFORE_MONTH_def DAYS_IN_MONTH_def)
  next
    case 3
    with k assms show ?thesis
      unfolding month_day_def Let_def k_def[symmetric]
      by (cases leap) (simp_all add: DAYS_BEFORE_MONTH_def DAYS_IN_MONTH_def)
  next
    case 4
    with k assms show ?thesis
      unfolding month_day_def Let_def k_def[symmetric]
      by (cases leap) (simp_all add: DAYS_BEFORE_MONTH_def DAYS_IN_MONTH_def)
  next
    case 5
    with k assms show ?thesis
      unfolding month_day_def Let_def k_def[symmetric]
      by (cases leap) (simp_all add: DAYS_BEFORE_MONTH_def DAYS_IN_MONTH_def)
  next
    case 6
    with k assms show ?thesis
      unfolding month_day_def Let_def k_def[symmetric]
      by (cases leap) (simp_all add: DAYS_BEFORE_MONTH_def DAYS_IN_MONTH_def)
  next
    case 7
    with k assms show ?thesis
      unfolding month_day_def Let_def k_def[symmetric]
      by (cases leap) (simp_all add: DAYS_BEFORE_MONTH_def DAYS_IN_MONTH_def)
  next
    case 8
    with k assms show ?thesis
      unfolding month_day_def Let_def k_def[symmetric]
      by (cases leap) (simp_all add: DAYS_BEFORE_MONTH_def DAYS_IN_MONTH_def)
  next
    case 9
    with k assms show ?thesis
      unfolding month_day_def Let_def k_def[symmetric]
      by (cases leap) (simp_all add: DAYS_BEFORE_MONTH_def DAYS_IN_MONTH_def)
  next
    case 10
    with k assms show ?thesis
      unfolding month_day_def Let_def k_def[symmetric]
      by (cases leap) (simp_all add: DAYS_BEFORE_MONTH_def DAYS_IN_MONTH_def)
  next
    case 11
    with k assms show ?thesis
      unfolding month_day_def Let_def k_def[symmetric]
      by (cases leap) (simp_all add: DAYS_BEFORE_MONTH_def DAYS_IN_MONTH_def)
  next
    case 12
    with k assms show ?thesis
      unfolding month_day_def Let_def k_def[symmetric]
      by (cases leap) (simp_all add: DAYS_BEFORE_MONTH_def DAYS_IN_MONTH_def)
  qed
qed

lemma ord2ymd_roundtrip:
  assumes "1 \<le> n"
  shows "case ord2ymd n of (y, m, d) \<Rightarrow>
           ymd2ord y m d = n \<and> 1 \<le> y \<and> 1 \<le> m \<and> m \<le> 12 \<and> 1 \<le> d \<and> d \<le> days_in_month y m"
proof -
  define n0 where "n0 = n - 1"
  define a where "a = n0 div 146097"
  define r1 where "r1 = n0 mod 146097"
  define b where "b = r1 div 36524"
  define r2 where "r2 = r1 mod 36524"
  define c where "c = r2 div 1461"
  define r3 where "r3 = r2 mod 1461"
  define e where "e = r3 div 365"
  define r4 where "r4 = r3 mod 365"
  define leap where "leap = (e = 3 \<and> (b = 3 \<or> c < 24))"
  have o: "ord2ymd n = (if e = 4 \<or> b = 4 then (a * 400 + 1 + b * 100 + c * 4 + e - 1, 12, 31)
             else (case month_day leap r4 of (m, d) \<Rightarrow> (a * 400 + 1 + b * 100 + c * 4 + e, m, d)))"
    unfolding ord2ymd_def Let_def leap_def r4_def e_def r3_def c_def r2_def b_def r1_def a_def n0_def
    by (rule refl)
  have n0: "0 \<le> n0" "n = n0 + 1" using assms by (simp_all add: n0_def)
  have d1: "n0 = 146097 * a + r1" "0 \<le> r1" "r1 < 146097" by (simp_all add: a_def r1_def)
  have d2: "r1 = 36524 * b + r2" "0 \<le> r2" "r2 < 36524" by (simp_all add: b_def r2_def)
  have d3: "r2 = 1461 * c + r3" "0 \<le> r3" "r3 < 1461" by (simp_all add: c_def r3_def)
  have d4: "r3 = 365 * e + r4" "0 \<le> r4" "r4 < 365" by (simp_all add: e_def r4_def)
  have a: "0 \<le> a" using n0 by (simp add: a_def)
  have b: "0 \<le> b" "b \<le> 4" using d1 d2 by arith+
  have c: "0 \<le> c" "c \<le> 24" using d2 d3 by arith+
  have e: "0 \<le> e" "e \<le> 4" using d3 d4 by arith+
  have dim12: "DAYS_IN_MONTH ! 12 = 31" "DAYS_BEFORE_MONTH ! 12 = 334"
    by (simp_all add: DAYS_IN_MONTH_def DAYS_BEFORE_MONTH_def)
  consider (b4) "b = 4" | (e4) "b \<le> 3" "e = 4" | (normal) "b \<le> 3" "e \<le> 3"
    using b e by arith
  then show ?thesis
  proof cases
    case b4
    with d1 d2 d3 d4 c e have z: "r2 = 0" "c = 0" "e = 0" "r4 = 0" "r3 = 0" by arith+
    have y: "a * 400 + 1 + b * 100 + c * 4 + e - 1 = 400 * a + 100 * 3 + 4 * 24 + 3 + 1"
      using b4 z by simp
    have dby: "days_before_year (400 * a + 100 * 3 + 4 * 24 + 3 + 1) = 146097 * a + 36524 * 3 + 1461 * 24 + 365 * 3"
      by (rule days_before_year_decomp) simp_all
    have lp: "is_leap (400 * a + 100 * 3 + 4 * 24 + 3 + 1)"
      by (subst is_leap_decomp) simp_all
    have "n = 146097 * a + 146097" using n0 d1 d2 b4 z by simp
    then show ?thesis
      unfolding o y using b4 a dby lp
      by (simp add: ymd2ord_def days_before_month_def days_in_month_def dim12)
  next
    case e4
    with d3 d4 have z: "r4 = 0" "r3 = 1460" by arith+
    with d2 d3 have c23: "c \<le> 23" by arith
    have y: "a * 400 + 1 + b * 100 + c * 4 + e - 1 = 400 * a + 100 * b + 4 * c + 3 + 1"
      using e4 by simp
    have dby: "days_before_year (400 * a + 100 * b + 4 * c + 3 + 1) = 146097 * a + 36524 * b + 1461 * c + 365 * 3"
      using b c e4 by (intro days_before_year_decomp) simp_all
    have lp: "is_leap (400 * a + 100 * b + 4 * c + 3 + 1)"
      using b c c23 e4 by (subst is_leap_decomp) simp_all
    have "n = 146097 * a + 36524 * b + 1461 * c + 1461" using n0 d1 d2 d3 z by simp
    moreover have "1 \<le> 400 * a + 100 * b + 4 * c + 3 + 1" using a b c by simp
    ultimately show ?thesis
      unfolding o y using e4 dby lp
      by (simp add: ymd2ord_def days_before_month_def days_in_month_def dim12)
  next
    case normal
    have y: "a * 400 + 1 + b * 100 + c * 4 + e = 400 * a + 100 * b + 4 * c + e + 1" by simp
    have dby: "days_before_year (400 * a + 100 * b + 4 * c + e + 1) = 146097 * a + 36524 * b + 1461 * c + 365 * e"
      using b c e normal by (intro days_before_year_decomp) simp_all
    have lp: "is_leap (400 * a + 100 * b + 4 * c + e + 1) = leap"
      unfolding leap_def using b c e normal by (intro is_leap_decomp) simp_all
    obtain m d where md: "month_day leap r4 = (m, d)" by (cases "month_day leap r4")
    have "r4 < (if leap then 366 else 365)" using d4 by simp
    from month_day_spec[OF d4(2) this] md
    have s: "1 \<le> m" "m \<le> 12" "1 \<le> d"
      "d \<le> DAYS_IN_MONTH ! nat m + (if m = 2 \<and> leap then 1 else 0)"
      "DAYS_BEFORE_MONTH ! nat m + (if 2 < m \<and> leap then 1 else 0) + d = r4 + 1"
      by simp_all
    have n: "n = 146097 * a + 36524 * b + 1461 * c + 365 * e + r4 + 1"
      using n0 d1 d2 d3 d4 by simp
    have "ymd2ord (400 * a + 100 * b + 4 * c + e + 1) m d = n"
      unfolding ymd2ord_def days_before_month_def dby lp n using s(5) by simp
    moreover have "d \<le> days_in_month (400 * a + 100 * b + 4 * c + e + 1) m"
      unfolding days_in_month_def lp using s(4)
      by (auto simp: DAYS_IN_MONTH_def split: if_splits)
    moreover have "1 \<le> 400 * a + 100 * b + 4 * c + e + 1" using a b c e by simp
    moreover have "\<not> (e = 4 \<or> b = 4)" using normal by simp
    ultimately show ?thesis
      unfolding o y using md s by simp
  qed
qed

section \<open>The reminder of a partial date\<close>

lemma digit_val_le9: "is_digit c \<Longrightarrow> digit_val c \<le> 9"
  unfolding is_digit_def digit_val_def by auto

lemma num_digits4:
  assumes "digits 4 y"
  shows "0 \<le> num y \<and> num y \<le> 9999"
proof -
  from assms obtain a b c d where y: "y = [a, b, c, d]"
    and d: "is_digit a" "is_digit b" "is_digit c" "is_digit d"
    by (cases y; cases "tl y"; cases "tl (tl y)"; cases "tl (tl (tl y))")
       (auto simp: digits_def)
  from d have "digit_val a \<le> 9" "digit_val b \<le> 9" "digit_val c \<le> 9" "digit_val d \<le> 9"
    by (simp_all add: digit_val_le9)
  then show ?thesis by (simp add: y num_def)
qed

lemma digits4_digit_string: "digits 4 y \<Longrightarrow> digit_string y"
  by (cases y) (auto simp: digits_def digit_string_def)

lemma month_token_cases:
  "month_token mm \<Longrightarrow>
     mm = ''01'' \<or> mm = ''02'' \<or> mm = ''03'' \<or> mm = ''04'' \<or> mm = ''05'' \<or> mm = ''06''
     \<or> mm = ''07'' \<or> mm = ''08'' \<or> mm = ''09'' \<or> mm = ''10'' \<or> mm = ''11'' \<or> mm = ''12''"
  by (simp add: month_token_def)

lemma month_token_num:
  assumes "month_token mm"
  shows "py_int mm = Inr (num mm) \<and> 1 \<le> num mm \<and> num mm \<le> 12 \<and> CHR ''/'' \<notin> set mm"
  using month_token_cases[OF assms]
  by (elim disjE)
     (simp_all add: py_int_def unsigned_int_def is_digit_def is_space_def digit_val_def num_def)

lemma int_1_12_cases:
  "1 \<le> m \<Longrightarrow> m \<le> 12 \<Longrightarrow>
     (m::int) = 1 \<or> m = 2 \<or> m = 3 \<or> m = 4 \<or> m = 5 \<or> m = 6
     \<or> m = 7 \<or> m = 8 \<or> m = 9 \<or> m = 10 \<or> m = 11 \<or> m = 12"
  by arith

lemma days_in_month_ge28: "1 \<le> m \<Longrightarrow> m \<le> 12 \<Longrightarrow> 28 \<le> days_in_month y m"
proof -
  assume "1 \<le> m" "m \<le> 12"
  from int_1_12_cases[OF this] show ?thesis
    by (elim disjE) (simp_all add: days_in_month_def DAYS_IN_MONTH_def)
qed

lemma days_before_month_bounds:
  "1 \<le> m \<Longrightarrow> m \<le> 12 \<Longrightarrow>
     0 \<le> days_before_month y m \<and> days_before_month y m \<le> 335
     \<and> (if 2 \<le> m then 31 \<le> days_before_month y m else days_before_month y m = 0)"
proof -
  assume "1 \<le> m" "m \<le> 12"
  from int_1_12_cases[OF this] show ?thesis
    by (elim disjE) (simp_all add: days_before_month_def DAYS_BEFORE_MONTH_def)
qed

lemma days_before_year_bounds:
  assumes "1 \<le> y" "y \<le> 9999"
  shows "365 * (y - 1) \<le> days_before_year y \<and> days_before_year y \<le> 3651694"
proof -
  define x where "x = y - 1"
  have x: "0 \<le> x" "x \<le> 9998" using assms by (simp_all add: x_def)
  have q4: "x div 4 \<le> 2499" using x by arith
  have q400: "0 \<le> x div 400" "x div 400 \<le> 24" using x by arith+
  have q100: "x - 9899 \<le> x div 100" using x by arith
  have m: "x div 100 \<le> x div 4" using x by (intro zdiv_mono2) simp_all
  show ?thesis
    unfolding days_before_year_def x_def[symmetric] using x q4 q400 q100 m by linarith
qed

lemma strp_m_token:
  assumes "month_token mm"
  shows "strp_m (mm @ CHR ''/'' # r) = [(mm, CHR ''/'' # r)]
         \<or> (\<exists>x. x \<noteq> CHR ''/'' \<and> strp_m (mm @ CHR ''/'' # r) = [(mm, CHR ''/'' # r), (''1'', x # CHR ''/'' # r)])"
  using month_token_cases[OF assms]
  by (elim disjE) (simp_all add: strp_m_def two_chars_def one_char_def)

lemma strp_Y_digits4:
  assumes "digits 4 yyyy"
  shows "strp_Y yyyy = [(yyyy, [])]"
proof -
  from assms obtain a b c d where y: "yyyy = [a, b, c, d]"
    and d: "is_digit a" "is_digit b" "is_digit c" "is_digit d"
    by (cases yyyy; cases "tl yyyy"; cases "tl (tl yyyy)"; cases "tl (tl (tl yyyy))")
       (auto simp: digits_def)
  then show ?thesis by (simp add: strp_Y_def)
qed

lemma format_matches_partial:
  assumes "month_token mm" "digits 4 yyyy"
  shows "format_matches MY (mm @ ''/'' @ yyyy) = [((mm, ''1'', yyyy), [])]"
  using strp_m_token[OF assms(1), of yyyy] strp_Y_digits4[OF assms(2)]
  by (auto simp: strp_slash_def)

lemma py_int_1: "py_int ''1'' = Inr 1"
  by (simp add: py_int_def unsigned_int_def is_digit_def is_space_def digit_val_def)

lemma strptime_partial:
  assumes "month_token mm" "digits 4 yyyy" "1 \<le> num yyyy"
  shows "strptime (mm @ ''/'' @ yyyy) MY
         = Inr \<lparr>year = num yyyy, month = num mm, day = 1, seconds = 0\<rparr>"
proof -
  note m = month_token_num[OF assms(1)]
  have "28 \<le> days_in_month (num yyyy) (num mm)"
    using m by (intro days_in_month_ge28) simp_all
  then have v: "valid_date (num yyyy) (num mm) 1"
    using m num_digits4[OF assms(2)] assms(3) by (simp add: valid_date_def)
  show ?thesis
    unfolding strptime_def format_matches_partial[OF assms(1,2)]
    using v m py_int_digits[OF digits4_digit_string[OF assms(2)]]
    by (simp add: py_int_1)
qed

lemma add_timedelta_days:
  assumes "seconds dt = 0" "0 < ymd2ord (year dt) (month dt) (day dt) + k"
    "ymd2ord (year dt) (month dt) (day dt) + k \<le> MAXORDINAL"
    "ord2ymd (ymd2ord (year dt) (month dt) (day dt) + k) = (y, m, d)"
  shows "add_timedelta dt k 0 = Inr \<lparr>year = y, month = m, day = d, seconds = 0\<rparr>"
  using assms by (simp add: add_timedelta_def Let_def)

lemma add_timedelta_hour:
  assumes "seconds dt = 0" "1 \<le> n" "n \<le> MAXORDINAL"
    "ord2ymd n = (year dt, month dt, day dt)"
  shows "add_timedelta dt 0 3600 = Inr (dt\<lparr>seconds := 3600\<rparr>)"
proof -
  from ord2ymd_roundtrip[OF assms(2)] assms(4)
  have r: "ymd2ord (year dt) (month dt) (day dt) = n" by simp
  have "(n * 86400 + 3600) div 86400 = n" "(n * 86400 + 3600) mod 86400 = 3600"
    by simp_all
  then show ?thesis
    using assms r by (simp add: add_timedelta_def Let_def)
qed

lemma strftime_seconds: "strftime_Ymd (dt\<lparr>seconds := s\<rparr>) = strftime_Ymd dt"
  by (simp add: strftime_Ymd_def)

lemma quote_title: "quote ''Document Expiry Reminder'' = ''Document%20Expiry%20Reminder''"
  by code_simp

lemma days_before_year_large:
  assumes "10000 \<le> y"
  shows "3652035 \<le> days_before_year y"
proof -
  define x where "x = y - 1"
  have x: "9999 \<le> x" using assms by (simp add: x_def)
  have q100: "99 \<le> x div 100" using x by arith
  have q400: "24 \<le> x div 400" using x by arith
  have "100 * (x div 100) \<le> x" using x by arith
  then have "(100 * (x div 100)) div 4 \<le> x div 4" by (intro zdiv_mono1) simp_all
  then have q4: "25 * (x div 100) \<le> x div 4" by simp
  show ?thesis
    unfolding days_before_year_def x_def[symmetric] using x q100 q400 q4 by linarith
qed

lemma ord2ymd_valid:
  assumes "1 \<le> n" "n \<le> 3652035" "ord2ymd n = (y, m, d)"
  shows "valid_date y m d \<and> ymd2ord y m d = n"
proof -
  from ord2ymd_roundtrip[OF assms(1)] assms(3)
  have r: "ymd2ord y m d = n" "1 \<le> y" "1 \<le> m" "m \<le> 12" "1 \<le> d" "d \<le> days_in_month y m"
    by simp_all
  have "y \<le> 9999"
  proof (rule ccontr)
    assume "\<not> y \<le> 9999"
    then have "3652035 \<le> days_before_year y" by (intro days_before_year_large) simp
    moreover have "0 \<le> days_before_month y m"
      using days_before_month_bounds[OF r(3,4)] by simp
    ultimately have "3652035 < ymd2ord y m d" using r(5) by (simp add: ymd2ord_def)
    with r(1) assms(2) show False by simp
  qed
  with r show ?thesis by (simp add: valid_date_def)
qed


text \<open>
  Claim C10, as stated, fails: \<open>datetime\<close> has no year 0, so \<open>strptime\<close> raises on
  \<open>01/0000\<close>, a month from 01 to 12 and a year of four digits, and there is no link.
\<close>

theorem year_zero_has_no_link:
  "month_token ''01'' \<and> digits 4 ''0000''
   \<and> create_google_calendar_link ''01/0000'' = Inr None"
  by code_simp


text \<open>
  Claim C10, amended: for every partial date string \<open>MM/YYYY\<close> with the month from 01
  to 12 and a year of four digits from 0001 to 9999, other than \<open>01/0001\<close>,
  \<open>create_google_calendar_link\<close> returns a link; the expiry date is taken as the first
  day of that month; the date in the \<open>dates\<close> parameter of the link, at its start and
  at its end, is a date of the calendar whose ordinal is 30 less than that of the first
  of the month, the date exactly 30 days before; and the details carry the date string.
  The date is printed as \<open>strftime("%Y%m%d")\<close> prints it: the year without padding,
  the month and the day with two digits, so 30 days before \<open>02/0001\<close> is \<open>10102\<close>
  and 30 days before \<open>01/1000\<close> is \<open>9991202\<close>.
\<close>

theorem partial_date_reminder:
  assumes "month_token mm" "digits 4 yyyy" "1 \<le> num yyyy" "2 \<le> num yyyy \<or> 2 \<le> num mm"
  shows "\<exists>y m d. create_google_calendar_link (mm @ ''/'' @ yyyy)
           = Inr (Some (''https://calendar.google.com/calendar/render?action=TEMPLATE&text=Document%20Expiry%20Reminder&dates=''
                @ strftime_Ymd \<lparr>year = y, month = m, day = d, seconds = 0\<rparr> @ ''/''
                @ strftime_Ymd \<lparr>year = y, month = m, day = d, seconds = 0\<rparr>
                @ ''&details=''
                @ quote (''Your document expires on '' @ mm @ ''/'' @ yyyy @ ''. Renew soon!'')))
         \<and> strftime_Ymd \<lparr>year = y, month = m, day = d, seconds = 0\<rparr>
             = py_str y @ zfill 2 (py_str m) @ zfill 2 (py_str d)
         \<and> valid_date y m d
         \<and> ymd2ord y m d + 30 = ymd2ord (num yyyy) (num mm) 1"
proof -
  let ?s = "mm @ ''/'' @ yyyy"
  let ?dt = "\<lparr>year = num yyyy, month = num mm, day = 1, seconds = 0\<rparr>"
  note mt = month_token_num[OF assms(1)]
  note ny = num_digits4[OF assms(2)]
  have sp: "split_slash ?s = [mm, yyyy]"
    using mt digits_no_slash[OF assms(2)] by (intro split_slash_2) simp_all
  have p: "strptime ?s MY = Inr ?dt"
    using assms(1-3) by (rule strptime_partial)
  define k where "k = ymd2ord (num yyyy) (num mm) 1 - 30"
  have yb: "365 * (num yyyy - 1) \<le> days_before_year (num yyyy)"
    "days_before_year (num yyyy) \<le> 3651694"
    using days_before_year_bounds[of "num yyyy"] assms(3) ny by simp_all
  have bm: "0 \<le> days_before_month (num yyyy) (num mm)"
    "days_before_month (num yyyy) (num mm) \<le> 335"
    "2 \<le> num mm \<Longrightarrow> 31 \<le> days_before_month (num yyyy) (num mm)"
    using days_before_month_bounds[of "num mm" "num yyyy"] mt by (simp_all split: if_splits)
  have k: "1 \<le> k" "k \<le> 3652035"
    using yb bm assms(3,4) unfolding k_def ymd2ord_def by auto
  obtain y m d where o: "ord2ymd k = (y, m, d)" by (cases "ord2ymd k")
  from ord2ymd_valid[OF k o] have v: "valid_date y m d" "ymd2ord y m d = k" by simp_all
  let ?r = "\<lparr>year = y, month = m, day = d, seconds = 0\<rparr>"
  have a1: "add_timedelta ?dt (- 30) 0 = Inr ?r"
    using k o by (intro add_timedelta_days) (simp_all add: k_def MAXORDINAL_def)
  have a2: "add_timedelta ?r 0 3600 = Inr (?r\<lparr>seconds := 3600\<rparr>)"
    using k o by (intro add_timedelta_hour[of _ k]) (simp_all add: MAXORDINAL_def)
  have "create_google_calendar_link ?s
           = Inr (Some (''https://calendar.google.com/calendar/render?action=TEMPLATE&text=Document%20Expiry%20Reminder&dates=''
                @ strftime_Ymd ?r @ ''/'' @ strftime_Ymd ?r @ ''&details=''
                @ quote (''Your document expires on '' @ mm @ ''/'' @ yyyy @ ''. Renew soon!'')))"
    unfolding create_google_calendar_link_def sp
    using p a1 a2 strftime_seconds[of 3600 ?r]
    by (simp add: quote_title Let_def del: datetime.simps)
  moreover have "strftime_Ymd ?r = py_str y @ zfill 2 (py_str m) @ zfill 2 (py_str d)"
    by (simp add: strftime_Ymd_def)
  ultimately show ?thesis using v unfolding k_def by force
qed

theorem partial_date_reminder_witness:
  "month_token ''12'' \<and> digits 4 ''2030'' \<and> 1 \<le> num ''2030''
   \<and> (2 \<le> num ''2030'' \<or> 2 \<le> num ''12'')
   \<and> (\<exists>y m d. create_google_calendar_link ''12/2030''
           = Inr (Some (''https://calendar.google.com/calendar/render?action=TEMPLATE&text=Document%20Expiry%20Reminder&dates=''
                @ strftime_Ymd \<lparr>year = y, month = m, day = d, seconds = 0\<rparr> @ ''/''
                @ strftime_Ymd \<lparr>year = y, month = m, day = d, seconds = 0\<rparr>
                @ ''&details=''
                @ quote ''Your document expires on 12/2030. Renew soon!''))
         \<and> strftime_Ymd \<lparr>year = y, month = m, day = d, seconds = 0\<rparr>
             = py_str y @ zfill 2 (py_str m) @ zfill 2 (py_str d)
         \<and> valid_date y m d
         \<and> ymd2ord y m d + 30 = ymd2ord 2030 12 1)
   \<and> create_google_calendar_link ''12/2030''
       = Inr (Some ''https://calendar.google.com/calendar/render?action=TEMPLATE&text=Document%20Expiry%20Reminder&dates=20301101/20301101&details=Your%20document%20expires%20on%2012/2030.%20Renew%20soon%21'')
   \<and> month_token ''02'' \<and> digits 4 ''0001'' \<and> 1 \<le> num ''0001''
   \<and> (2 \<le> num ''0001'' \<or> 2 \<le> num ''02'')
   \<and> (\<exists>y m d. create_google_calendar_link ''02/0001''
           = Inr (Some (''https://calendar.google.com/calendar/render?action=TEMPLATE&text=Document%20Expiry%20Reminder&dates=''
                @ strftime_Ymd \<lparr>year = y, month = m, day = d, seconds = 0\<rparr> @ ''/''
                @ strftime_Ymd \<lparr>year = y, month = m, day = d, seconds = 0\<rparr>
                @ ''&details=''
                @ quote ''Your document expires on 02/0001. Renew soon!''))
         \<and> ymd2ord y m d + 30 = ymd2ord 1 2 1)
   \<and> create_google_calendar_link ''02/0001''
       = Inr (Some ''https://calendar.google.com/calendar/render?action=TEMPLATE&text=Document%20Expiry%20Reminder&dates=10102/10102&details=Your%20document%20expires%20on%2002/0001.%20Renew%20soon%21'')
   \<and> create_google_calendar_link ''01/1000''
       = Inr (Some ''https://calendar.google.com/calendar/render?action=TEMPLATE&text=Document%20Expiry%20Reminder&dates=9991202/9991202&details=Your%20document%20expires%20on%2001/1000.%20Renew%20soon%21'')"
proof -
  have h1: "month_token ''12''" by (simp add: month_token_def)
  have h2: "digits 4 ''2030''" by (simp add: digits_def is_digit_def)
  have n: "num ''2030'' = 2030" "num ''12'' = 12" by (simp_all add: num_def digit_val_def)
  have h3: "1 \<le> num ''2030''" and h4: "2 \<le> num ''2030'' \<or> 2 \<le> num ''12''"
    by (simp_all add: n)
  have x: "create_google_calendar_link ''12/2030''
       = Inr (Some ''https://calendar.google.com/calendar/render?action=TEMPLATE&text=Document%20Expiry%20Reminder&dates=20301101/20301101&details=Your%20document%20expires%20on%2012/2030.%20Renew%20soon%21'')"
    by code_simp
  have a: "\<exists>y m d. create_google_calendar_link ''12/2030''
           = Inr (Some (''https://calendar.google.com/calendar/render?action=TEMPLATE&text=Document%20Expiry%20Reminder&dates=''
                @ strftime_Ymd \<lparr>year = y, month = m, day = d, seconds = 0\<rparr> @ ''/''
                @ strftime_Ymd \<lparr>year = y, month = m, day = d, seconds = 0\<rparr>
                @ ''&details=''
                @ quote ''Your document expires on 12/2030. Renew soon!''))
         \<and> strftime_Ymd \<lparr>year = y, month = m, day = d, seconds = 0\<rparr>
             = py_str y @ zfill 2 (py_str m) @ zfill 2 (py_str d)
         \<and> valid_date y m d
         \<and> ymd2ord y m d + 30 = ymd2ord 2030 12 1"
    using partial_date_reminder[OF h1 h2 h3 h4] by (simp add: n del: datetime.simps)
  have k1: "month_token ''02''" by (simp add: month_token_def)
  have k2: "digits 4 ''0001''" by (simp add: digits_def is_digit_def)
  have m: "num ''0001'' = 1" "num ''02'' = 2" by (simp_all add: num_def digit_val_def)
  have k3: "1 \<le> num ''0001''" and k4: "2 \<le> num ''0001'' \<or> 2 \<le> num ''02''"
    by (simp_all add: m)
  from partial_date_reminder[OF k1 k2 k3 k4]
  have b: "\<exists>y m d. create_google_calendar_link ''02/0001''
           = Inr (Some (''https://calendar.google.com/calendar/render?action=TEMPLATE&text=Document%20Expiry%20Reminder&dates=''
                @ strftime_Ymd \<lparr>year = y, month = m, day = d, seconds = 0\<rparr> @ ''/''
                @ strftime_Ymd \<lparr>year = y, month = m, day = d, seconds = 0\<rparr>
                @ ''&details=''
                @ quote ''Your document expires on 02/0001. Renew soon!''))
         \<and> ymd2ord y m d + 30 = ymd2ord 1 2 1"
    unfolding m by (simp del: datetime.simps) blast
  have y: "create_google_calendar_link ''02/0001''
       = Inr (Some ''https://calendar.google.com/calendar/render?action=TEMPLATE&text=Document%20Expiry%20Reminder&dates=10102/10102&details=Your%20document%20expires%20on%2002/0001.%20Renew%20soon%21'')"
    by code_simp
  have z: "create_google_calendar_link ''01/1000''
       = Inr (Some ''https://calendar.google.com/calendar/render?action=TEMPLATE&text=Document%20Expiry%20Reminder&dates=9991202/9991202&details=Your%20document%20expires%20on%2001/1000.%20Renew%20soon%21'')"
    by code_simp
  from h1 h2 h3 h4 a x k1 k2 k3 k4 b y z show ?thesis
    by (simp only: simp_thms)
qed

section \<open>What \<open>extract_expiry_dates\<close> returns\<close>

text \<open>
  While the clock shows a year of four digits, \<open>extract_expiry_dates\<close> raises nothing
  and returns the empty list, when no tier finds a candidate, or one of the candidates:
  a month, a day for a full date, and a year of three or four digits.
\<close>

lemma month_token_digits: "month_token m \<Longrightarrow> digits 2 m"
  using month_token_cases[of m]
  by (auto simp: digits_def is_digit_def)

lemma day_token_digits: "day_token d \<Longrightarrow> digits 2 d"
proof -
  assume "day_token d"
  then have "d \<in> set [''01'', ''02'', ''03'', ''04'', ''05'', ''06'', ''07'', ''08'', ''09'',
                            ''10'', ''11'', ''12'', ''13'', ''14'', ''15'', ''16'', ''17'', ''18'', ''19'',
                            ''20'', ''21'', ''22'', ''23'', ''24'', ''25'', ''26'', ''27'', ''28'', ''29'',
                            ''30'', ''31'']"
    by (simp only: day_token_def)
  then show ?thesis
    unfolding digits_def is_digit_def by (simp only: set_simps insert_iff empty_iff) (elim disjE; simp)
qed

lemma resolve_century_year:
  assumes "digits 2 cc" "year_token y"
  shows "extracted_year (resolve_century cc y)"
  using assms
  by (auto simp: digits_def year_token_def extracted_year_def resolve_century_def)

lemma extracted_year_no_slash: "extracted_year y \<Longrightarrow> CHR ''/'' \<notin> set y"
  by (auto simp: extracted_year_def list_all_iff dest: is_digit_not_slash)

lemma candidate_shape:
  assumes "digits 2 cc" "pattern_text p g t" "c \<in> set (candidate cc g)"
  shows "extracted_date c"
proof (cases p)
  case Full
  with assms(2) obtain m d y where g: "g = [m, d, y]" and
    h: "month_token m" "day_token d" "year_token y"
    by (auto simp: pattern_text_def split: list.splits)
  let ?y = "resolve_century cc y"
  have y: "extracted_year ?y" using assms(1) h(3) by (rule resolve_century_year)
  have c: "c = m @ ''/'' @ d @ ''/'' @ ?y"
    using assms(3) g by (simp add: candidate_def)
  have "split_slash c = [m, d, ?y]"
    unfolding c using digits_no_slash[OF month_token_digits[OF h(1)]]
      digits_no_slash[OF day_token_digits[OF h(2)]] extracted_year_no_slash[OF y]
    by (rule split_slash_3)
  with h y show ?thesis by (simp add: extracted_date_def)
next
  case Partial
  with assms(2) obtain m y where g: "g = [m, y]" and
    h: "month_token m" "year_token y"
    by (auto simp: pattern_text_def split: list.splits)
  let ?y = "resolve_century cc y"
  have y: "extracted_year ?y" using assms(1) h(2) by (rule resolve_century_year)
  have c: "c = m @ ''/'' @ ?y"
    using assms(3) g by (simp add: candidate_def)
  have "split_slash c = [m, ?y]"
    unfolding c using digits_no_slash[OF month_token_digits[OF h(1)]]
      extracted_year_no_slash[OF y]
    by (rule split_slash_2)
  with h y show ?thesis by (simp add: extracted_date_def)
qed

lemma found_shape:
  assumes "digits 2 cc" "c \<in> set (found cc span)"
  shows "extracted_date c"
proof -
  from assms(2) obtain p g where g: "g \<in> set (re_findall p span)" "c \<in> set (candidate cc g)"
    by (auto simp: found_def)
  then obtain i j where "(i, j, g) \<in> set (finditer p 0 span)"
    by (auto simp: re_findall_def)
  from finditer_text[OF this] have "pattern_text p g (take (j - i) (drop i span))" by simp
  with assms(1) g(2) show ?thesis by (intro candidate_shape)
qed

lemma collect_candidates_shape:
  assumes "digits 2 (current_century now)" "c \<in> set (collect_candidates now text)"
  shows "extracted_date c"
proof -
  from assms(2) have "c \<in> set (first_tier now text)"
    by (simp add: collect_candidates_first_tier)
  then obtain span where "c \<in> set (found (current_century now) span)"
    by (auto simp: first_tier_def Let_def tier_same_line_def tier_next_line_def tier_global_def
        split: if_splits)
  with assms(1) show ?thesis by (intro found_shape)
qed

lemma extracted_date_parts:
  assumes "extracted_date d"
  obtains (full) mm dd yyyy where "split_slash d = [mm, dd, yyyy]" "d = mm @ ''/'' @ dd @ ''/'' @ yyyy"
      "month_token mm" "day_token dd" "extracted_year yyyy"
  | (partial) mm yyyy where "split_slash d = [mm, yyyy]" "d = mm @ ''/'' @ yyyy"
      "month_token mm" "extracted_year yyyy"
proof -
  have j: "join_slash (split_slash d) = d" by (rule join_split_slash)
  from assms consider
    (a) mm dd yyyy where "split_slash d = [mm, dd, yyyy]"
      "month_token mm" "day_token dd" "extracted_year yyyy"
    | (b) mm yyyy where "split_slash d = [mm, yyyy]" "month_token mm" "extracted_year yyyy"
    by (auto simp: extracted_date_def split: list.splits)
  then show ?thesis
  proof cases
    case a
    with j have "d = mm @ ''/'' @ dd @ ''/'' @ yyyy" by simp
    with a show ?thesis by (intro full)
  next
    case b
    with j have "d = mm @ ''/'' @ yyyy" by simp
    with b show ?thesis by (intro partial)
  qed
qed

lemma extracted_year_resolved: "extracted_year y \<Longrightarrow> resolve_century cc y = y"
  by (auto simp: extracted_year_def resolve_century_def)

lemma normalize_extracted:
  assumes "extracted_date d"
  shows "normalize_expiry_date now d = Some d"
  using assms
proof (cases rule: extracted_date_parts)
  case (full mm dd yyyy)
  have "length mm = 2" "length dd = 2"
    using month_token_digits[OF full(3)] day_token_digits[OF full(4)] by (simp_all add: digits_def)
  then have "zfill 2 mm = mm" "zfill 2 dd = dd" "dd \<noteq> []"
    by (auto simp: zfill_fixed)
  then show ?thesis
    using full by (simp add: normalize_expiry_date_def truthy_def extracted_year_resolved)
next
  case (partial mm yyyy)
  have "length mm = 2"
    using month_token_digits[OF partial(3)] by (simp add: digits_def)
  then have "zfill 2 mm = mm" by (simp add: zfill_fixed)
  then show ?thesis
    using partial by (simp add: normalize_expiry_date_def extracted_year_resolved)
qed

lemma digits_digit_string: "digits n s \<Longrightarrow> 0 < n \<Longrightarrow> digit_string s"
  by (cases s) (auto simp: digits_def digit_string_def)

lemma extracted_year_digit_string: "extracted_year y \<Longrightarrow> digit_string y"
  by (cases y) (auto simp: extracted_year_def digit_string_def)

lemma extracted_date_like:
  assumes "extracted_date d"
  shows "date_like d"
  using assms
proof (cases rule: extracted_date_parts)
  case (full mm dd yyyy)
  then show ?thesis
    using digits_digit_string[OF month_token_digits[OF full(3)]]
      digits_digit_string[OF day_token_digits[OF full(4)]]
      extracted_year_digit_string[OF full(5)]
    by (simp add: date_like_def)
next
  case (partial mm yyyy)
  then show ?thesis
    using digits_digit_string[OF month_token_digits[OF partial(3)]]
      extracted_year_digit_string[OF partial(4)]
    by (simp add: date_like_def)
qed

lemma normalize_all_extracted:
  assumes "\<forall>c \<in> set cs. extracted_date c"
  shows "set (normalize_all now cs) = set cs"
proof -
  have "set (fold (\<lambda>c normalized.
             (let norm = normalize_expiry_date now c
              in if truthy norm then (case norm of None \<Rightarrow> normalized
                                      | Some n \<Rightarrow> set_add n normalized)
                 else normalized)) cs acc) = set acc \<union> set cs"
    if "\<forall>c \<in> set cs. extracted_date c" for acc
    using that
  proof (induction cs arbitrary: acc)
    case Nil
    show ?case by simp
  next
    case (Cons c cs)
    then have e: "extracted_date c" by simp
    then have "c \<noteq> []" by (cases rule: extracted_date_parts) auto
    with Cons normalize_extracted[OF e, of now] show ?case
      by (simp add: truthy_def set_set_add)
  qed
  from this[OF assms, of "[]"] show ?thesis by (simp add: normalize_all_def)
qed

lemma century_digits2:
  assumes "1000 \<le> now" "now \<le> 9999"
  shows "digits 2 (current_century now)"
proof -
  have c: "current_century now = py_str (now div 100)"
    using assms by (simp add: current_century_def century_of_year)
  have "10 \<le> now div 100" "now div 100 < 100" using assms by auto
  then have "length (py_str (now div 100)) = 2" "list_all is_digit (py_str (now div 100))"
    using str_digits_digits[of "now div 100"] by (simp_all add: py_str_def length_str_digits_2)
  with c show ?thesis by (simp add: digits_def)
qed

lemma extract_total:
  assumes "iteration_order iter" "1000 \<le> now" "now \<le> 9999"
  shows "(collect_candidates now text = [] \<and> extract_expiry_dates iter now text = Inr [])
         \<or> (\<exists>d. extract_expiry_dates iter now text = Inr [d]
                \<and> d \<in> set (collect_candidates now text) \<and> extracted_date d)"
proof -
  let ?cs = "collect_candidates now text"
  have cc: "digits 2 (current_century now)" using assms(2,3) by (rule century_digits2)
  have d: "distinct ?cs" by (simp add: collect_candidates_first_tier)
  with assms(1) have it: "set (iter ?cs) = set ?cs" by (simp add: iteration_order_def)
  have sh: "\<forall>c \<in> set (iter ?cs). extracted_date c"
    using it collect_candidates_shape[OF cc] by blast
  let ?ns = "normalize_all now (iter ?cs)"
  have ns: "set ?ns = set ?cs" using normalize_all_extracted[OF sh] it by simp
  have dn: "distinct ?ns"
  proof -
    have "distinct (fold (\<lambda>c normalized.
             (let norm = normalize_expiry_date now c
              in if truthy norm then (case norm of None \<Rightarrow> normalized
                                      | Some n \<Rightarrow> set_add n normalized)
                 else normalized)) xs acc)" if "distinct acc" for xs acc
      using that
      by (induction xs arbitrary: acc) (auto simp: Let_def distinct_set_add split: option.splits)
    then show ?thesis by (simp add: normalize_all_def)
  qed
  with assms(1) have itn: "set (iter ?ns) = set ?cs" using ns by (simp add: iteration_order_def)
  show ?thesis
  proof (cases "?cs = []")
    case True
    with itn have "iter ?ns = []" by simp
    with True show ?thesis by (simp add: extract_expiry_dates_def rank_def)
  next
    case False
    with itn have ne: "iter ?ns \<noteq> []" by auto
    have "list_all date_like (iter ?ns)"
      using itn collect_candidates_shape[OF cc] by (auto simp: list_all_iff intro: extracted_date_like)
    from rank_spec[OF ne this] obtain d where "rank (iter ?ns) = Inr [d]" "d \<in> set (iter ?ns)"
      by blast
    with itn collect_candidates_shape[OF cc] show ?thesis
      by (auto simp: extract_expiry_dates_def)
  qed
qed

text \<open>
  Claim C3 says that \<open>extract_expiry_dates\<close> returns at most one date, normalized with
  a year of exactly four digits, and nothing on the empty text. The year group of both
  patterns is \<open>\d{2,4}\<close>, and only a year of two characters is completed by the century:
  a year of three digits passes through. On the text \<open>01/15/202\<close> the code returns
  \<open>01/15/202\<close>, in either iteration order of the two candidates \<open>01/15/202\<close> and
  \<open>01/2015\<close>, which is not a normalized date; on \<open>EXP 07/203\<close> it returns \<open>07/203\<close>.
  The empty text gives the empty list.
\<close>

theorem three_digit_year:
  "extract_expiry_dates id 2025 ''01/15/202'' = Inr [''01/15/202'']
   \<and> extract_expiry_dates rev 2025 ''01/15/202'' = Inr [''01/15/202'']
   \<and> \<not> normalized_date ''01/15/202''
   \<and> extract_expiry_dates id 2025 ''EXP 07/203'' = Inr [''07/203'']
   \<and> extract_expiry_dates id 2025 '''' = Inr []"
  by code_simp

section \<open>What \<open>create_google_calendar_link\<close> returns\<close>

text \<open>
  A string that \<open>strptime\<close> does not parse gives no link. A string that it parses
  gives the link of the date 30 days before, at both ends of the range, unless the date
  is one of the first 30 days of year 1, where the OverflowError leaves the function.
\<close>

lemma strptime_valid:
  assumes "strptime s fmt = Inr dt"
  shows "seconds dt = 0 \<and> valid_date (year dt) (month dt) (day dt)"
  using assms
  by (auto simp: strptime_def split: list.splits prod.splits if_splits sum.splits)

lemma days_in_month_le31: "1 \<le> m \<Longrightarrow> m \<le> 12 \<Longrightarrow> days_in_month y m \<le> 31"
proof -
  assume "1 \<le> m" "m \<le> 12"
  from int_1_12_cases[OF this] show ?thesis
    by (elim disjE) (simp_all add: days_in_month_def DAYS_IN_MONTH_def)
qed

lemma valid_date_ordinal:
  assumes "valid_date y m d"
  shows "1 \<le> ymd2ord y m d \<and> ymd2ord y m d \<le> 3652060"
proof -
  from assms have v: "1 \<le> y" "y \<le> 9999" "1 \<le> m" "m \<le> 12" "1 \<le> d" "d \<le> days_in_month y m"
    by (simp_all add: valid_date_def)
  from days_before_year_bounds[OF v(1,2)] days_before_month_bounds[OF v(3,4), of y]
    days_in_month_le31[OF v(3,4), of y] v
  show ?thesis by (auto simp: ymd2ord_def)
qed

lemma reminder_of_parsed:
  assumes "(if length (split_slash s) = 3 then strptime s MDY else strptime s MY) = Inr dt"
  shows "if ymd2ord (year dt) (month dt) (day dt) \<le> 30
         then create_google_calendar_link s = Inl OverflowError
         else (\<exists>y m d. create_google_calendar_link s
           = Inr (Some (''https://calendar.google.com/calendar/render?action=TEMPLATE&text=Document%20Expiry%20Reminder&dates=''
                @ strftime_Ymd \<lparr>year = y, month = m, day = d, seconds = 0\<rparr> @ ''/''
                @ strftime_Ymd \<lparr>year = y, month = m, day = d, seconds = 0\<rparr>
                @ ''&details='' @ quote (''Your document expires on '' @ s @ ''. Renew soon!'')))
           \<and> valid_date y m d
           \<and> ymd2ord y m d + 30 = ymd2ord (year dt) (month dt) (day dt))"
proof -
  from assms have "strptime s MDY = Inr dt \<or> strptime s MY = Inr dt"
    by (auto split: if_splits)
  then have v: "seconds dt = 0" "valid_date (year dt) (month dt) (day dt)"
    using strptime_valid by blast+
  note o = valid_date_ordinal[OF v(2)]
  define k where "k = ymd2ord (year dt) (month dt) (day dt) - 30"
  show ?thesis
  proof (cases "ymd2ord (year dt) (month dt) (day dt) \<le> 30")
    case True
    then have "add_timedelta dt (- 30) 0 = Inl OverflowError"
      using v(1) by (simp add: add_timedelta_def Let_def)
    with True assms show ?thesis
      by (simp add: create_google_calendar_link_def)
  next
    case False
    then have k: "1 \<le> k" "k \<le> 3652035" using o by (simp_all add: k_def)
    obtain y m d where od: "ord2ymd k = (y, m, d)" by (cases "ord2ymd k")
    from ord2ymd_valid[OF k od] have r: "valid_date y m d" "ymd2ord y m d = k" by simp_all
    let ?r = "\<lparr>year = y, month = m, day = d, seconds = 0\<rparr>"
    have a1: "add_timedelta dt (- 30) 0 = Inr ?r"
      using k od v(1) by (intro add_timedelta_days) (simp_all add: k_def MAXORDINAL_def)
    have a2: "add_timedelta ?r 0 3600 = Inr (?r\<lparr>seconds := 3600\<rparr>)"
      using k od by (intro add_timedelta_hour[of _ k]) (simp_all add: MAXORDINAL_def)
    have "create_google_calendar_link s
           = Inr (Some (''https://calendar.google.com/calendar/render?action=TEMPLATE&text=Document%20Expiry%20Reminder&dates=''
                @ strftime_Ymd ?r @ ''/'' @ strftime_Ymd ?r @ ''&details=''
                @ quote (''Your document expires on '' @ s @ ''. Renew soon!'')))"
      unfolding create_google_calendar_link_def
      using assms a1 a2 strftime_seconds[of 3600 ?r]
      by (simp add: quote_title Let_def del: datetime.simps)
    with r False show ?thesis unfolding k_def by force
  qed
qed

lemma no_link_without_parse:
  assumes "(if length (split_slash s) = 3 then strptime s MDY else strptime s MY) = Inl e"
  shows "create_google_calendar_link s = Inr None"
  using assms by (simp add: create_google_calendar_link_def)

text \<open>
  Claim C4 says that the link carries the all-day range from the reminder date, 30 days
  before the expiry date, to the day after it: \<open>dates=20280731/20280801\<close> for
  \<open>08/30/2028\<close>. The code adds one hour to the reminder date, which is at midnight,
  and prints the day only: the end of the range is the day of its start. The other
  parameters are as the claim says.
\<close>

theorem reminder_range_is_empty:
  "create_google_calendar_link ''08/30/2028'' =
     Inr (Some ''https://calendar.google.com/calendar/render?action=TEMPLATE&text=Document%20Expiry%20Reminder&dates=20280731/20280731&details=Your%20document%20expires%20on%2008/30/2028.%20Renew%20soon%21'')"
  by code_simp

text \<open>
  Claim C7 says that no operation raises. The subtraction of 30 days (line 139) stands
  after the \<open>try\<close> that guards the parsing: on a date in the first 30 days of year 1
  it leaves the range of \<open>datetime\<close> and the OverflowError leaves the function.
  \<open>extract_expiry_dates\<close> returns such a date on the text \<open>EXP 01/15/0001\<close>.
  A string that does not parse, as \<open>13/2028\<close>, gives no link and no exception.
\<close>

theorem reminder_overflow:
  "create_google_calendar_link ''01/15/0001'' = Inl OverflowError
   \<and> extract_expiry_dates id 2025 ''EXP 01/15/0001'' = Inr [''01/15/0001'']
   \<and> create_google_calendar_link ''13/2028'' = Inr None"
  by code_simp

end
